theory Spec2Isabelle
  imports Main "HOL-Library.Word" "HOL-Library.Multiset"
begin

section \<open>Strings of the source language\<close>

text \<open>
  A JavaScript string is a sequence of 16-bit code units. The board's cells carry
  characters beyond Latin-1 (en dash, em dash, the Unicode spaces), so a code unit is a
  \<open>16 word\<close> and not a \<open>char\<close>. \<open>js\<close> embeds an ASCII literal.
\<close>

type_synonym jschar = "16 word"
type_synonym jsstring = "jschar list"

definition js :: "string \<Rightarrow> jsstring" where
  "js s = map of_char s"

definition NBSP :: jschar where "NBSP = 0xA0"
definition SP :: jschar where "SP = 0x20"
definition TAB :: jschar where "TAB = 0x09"
definition NL :: jschar where "NL = 0x0A"

text \<open>The class \<open>\s\<close> of a regular expression, which is also what \<open>trim()\<close> strips:
  the WhiteSpace and LineTerminator code points of ECMAScript.\<close>

definition isWhite :: "jschar \<Rightarrow> bool" where
  "isWhite c \<longleftrightarrow>
     c = 0x09 \<or> c = 0x0A \<or> c = 0x0B \<or> c = 0x0C \<or> c = 0x0D \<or> c = 0x20 \<or> c = 0xA0 \<or>
     c = 0x1680 \<or> (0x2000 \<le> c \<and> c \<le> 0x200A) \<or> c = 0x2028 \<or> c = 0x2029 \<or>
     c = 0x202F \<or> c = 0x205F \<or> c = 0x3000 \<or> c = 0xFEFF"

text \<open>The class \<open>[ \t]\<close>.\<close>

definition isHoriz :: "jschar \<Rightarrow> bool" where
  "isHoriz c \<longleftrightarrow> c = SP \<or> c = TAB"

text \<open>The class \<open>\d\<close> (ASCII digits only), \<open>[A-Za-z]\<close>, and \<open>\w\<close>.\<close>

definition isDigit :: "jschar \<Rightarrow> bool" where
  "isDigit c \<longleftrightarrow> 0x30 \<le> c \<and> c \<le> 0x39"

definition isAlpha :: "jschar \<Rightarrow> bool" where
  "isAlpha c \<longleftrightarrow> (0x41 \<le> c \<and> c \<le> 0x5A) \<or> (0x61 \<le> c \<and> c \<le> 0x7A)"

definition isWordChar :: "jschar \<Rightarrow> bool" where
  "isWordChar c \<longleftrightarrow> isAlpha c \<or> isDigit c \<or> c = 0x5F"

text \<open>\<open>String.prototype.trim\<close>.\<close>

definition trim :: "jsstring \<Rightarrow> jsstring" where
  "trim s = rev (dropWhile isWhite (rev (dropWhile isWhite s)))"

section \<open>Global replacement by a regular expression\<close>

text \<open>
  \<open>s.replace(/re/g, rep)\<close> scans \<open>s\<close> from the left. At each position it tries the
  expression; on a match it emits \<open>rep\<close> and goes on behind the match, otherwise it emits
  the code unit and moves one position on. A matcher gives the length of the match of its
  expression at the head of the remaining text, if there is one. None of the expressions
  of \<open>decode\<close> looks behind the position or matches the empty string.
\<close>

fun replaceG :: "(jsstring \<Rightarrow> nat option) \<Rightarrow> jsstring \<Rightarrow> jsstring \<Rightarrow> jsstring" where
  "replaceG m rep [] = []"
| "replaceG m rep (c # cs) =
     (case m (c # cs) of
        None \<Rightarrow> c # replaceG m rep cs
      | Some 0 \<Rightarrow> c # replaceG m rep cs
      | Some (Suc n) \<Rightarrow> rep @ replaceG m rep (drop n cs))"

text \<open>A literal expression such as \<open>/&amp;/\<close>.\<close>

definition lit :: "jsstring \<Rightarrow> jsstring \<Rightarrow> nat option" where
  "lit p s = (if take (length p) s = p then Some (length p) else None)"

text \<open>\<open>/\u00A0|&nbsp;/\<close>: the alternatives in their order.\<close>

definition nbspRe :: "jsstring \<Rightarrow> nat option" where
  "nbspRe s = (case lit [NBSP] s of Some n \<Rightarrow> Some n | None \<Rightarrow> lit (js ''&nbsp;'') s)"

text \<open>\<open>/[ \t]+/\<close>: the greedy run.\<close>

definition horizRe :: "jsstring \<Rightarrow> nat option" where
  "horizRe s = (let n = length (takeWhile isHoriz s) in if 0 < n then Some n else None)"

text \<open>
  \<open>/\s+\n/\<close>: \<open>\s+\<close> first takes the whole run of white space and then gives code units
  back, one at a time and never the first, until a line feed follows.
\<close>

fun backtrackNL :: "nat \<Rightarrow> jsstring \<Rightarrow> nat option" where
  "backtrackNL 0 s = None"
| "backtrackNL (Suc k) s =
     (if Suc k < length s \<and> s ! Suc k = NL then Some (Suc (Suc k)) else backtrackNL k s)"

definition wsNlRe :: "jsstring \<Rightarrow> nat option" where
  "wsNlRe s = backtrackNL (length (takeWhile isWhite s)) s"

text \<open>\<open>/\n\s+/\<close>.\<close>

definition nlWsRe :: "jsstring \<Rightarrow> nat option" where
  "nlWsRe s =
     (case s of
        [] \<Rightarrow> None
      | c # cs \<Rightarrow>
          (let n = length (takeWhile isWhite cs)
           in if c = NL \<and> 0 < n then Some (Suc n) else None))"

section \<open>Cell Decoder\<close>

definition decode :: "jsstring \<Rightarrow> jsstring" where
  "decode s =
     trim
      (replaceG nlWsRe [NL]
        (replaceG wsNlRe [NL]
          (replaceG horizRe [SP]
            (replaceG (lit (js ''&gt;'')) (js ''>'')
              (replaceG (lit (js ''&lt;'')) (js ''<'')
                (replaceG (lit (js ''&amp;'')) (js ''&'')
                  (replaceG nbspRe [SP] s)))))))"


section \<open>Helpers shared by the field parsers\<close>

text \<open>\<open>x || null\<close> and \<open>x || ""\<close> on strings: the empty string is falsy.\<close>

definition orNull :: "jsstring \<Rightarrow> jsstring option" where
  "orNull s = (if s = [] then None else Some s)"

definition orEmpty :: "jsstring option \<Rightarrow> jsstring" where
  "orEmpty s = (case s of None \<Rightarrow> [] | Some t \<Rightarrow> t)"

text \<open>
  Matching an ASCII literal under the \<open>i\<close> flag, without the \<open>u\<close> flag: ECMAScript
  canonicalises a code unit by upper-casing it, and keeps a code unit outside ASCII whose
  upper case would be ASCII. So only the two ASCII cases of a letter match it.
\<close>

definition asciiUpper :: "jschar \<Rightarrow> jschar" where
  "asciiUpper c = (if 0x61 \<le> c \<and> c \<le> 0x7A then c - 0x20 else c)"

definition ciEq :: "jsstring \<Rightarrow> jsstring \<Rightarrow> bool" where
  "ciEq s p \<longleftrightarrow> map asciiUpper s = map asciiUpper p"

text \<open>
  \<open>String.prototype.toLowerCase\<close>. ASCII capitals become small letters. Outside ASCII
  exactly two code points have a lower case that contains an ASCII letter: U+0130 (small i
  and the combining dot U+0307) and the Kelvin sign U+212A (small k). Every other code
  unit outside ASCII is mapped to code units outside ASCII; the model keeps it, which no
  test against an ASCII literal can tell apart.
\<close>

definition lowerUnit :: "jschar \<Rightarrow> jsstring" where
  "lowerUnit c =
     (if 0x41 \<le> c \<and> c \<le> 0x5A then [c + 0x20]
      else if c = 0x0130 then [0x69, 0x0307]
      else if c = 0x212A then [0x6B]
      else [c])"

definition toLowerCase :: "jsstring \<Rightarrow> jsstring" where
  "toLowerCase s = concat (map lowerUnit s)"

text \<open>\<open>/lit/.test(s)\<close> for a literal without anchors: the literal occurs somewhere.\<close>

fun testLit :: "jsstring \<Rightarrow> jsstring \<Rightarrow> bool" where
  "testLit p [] = (p = [])"
| "testLit p (c # cs) = (take (length p) (c # cs) = p \<or> testLit p cs)"

text \<open>\<open>s.padStart(n, "0")\<close>.\<close>

definition padStart :: "nat \<Rightarrow> jsstring \<Rightarrow> jsstring" where
  "padStart n s = replicate (n - length s) 0x30 @ s"

text \<open>
  \<open>`${Number(d)}`\<close> for a string \<open>d\<close> of one or two decimal digits: the digits without
  leading zeros, and \<open>0\<close> when nothing is left.
\<close>

definition numberString :: "jsstring \<Rightarrow> jsstring" where
  "numberString d = (case dropWhile (\<lambda>c. c = 0x30) d of [] \<Rightarrow> [0x30] | r \<Rightarrow> r)"

text \<open>\<open>parts.join(sep)\<close>.\<close>

fun join :: "jsstring \<Rightarrow> jsstring list \<Rightarrow> jsstring" where
  "join sep [] = []"
| "join sep [x] = x"
| "join sep (x # y # ys) = x @ sep @ join sep (y # ys)"

text \<open>
  \<open>s.split(/re/)\<close> for an expression that never matches the empty string: scan from the
  left, close the running segment at each match and go on behind the match.
\<close>

fun splitG :: "(jsstring \<Rightarrow> nat option) \<Rightarrow> jsstring \<Rightarrow> jsstring \<Rightarrow> jsstring list" where
  "splitG m seg [] = [seg]"
| "splitG m seg (c # cs) =
     (case m (c # cs) of
        None \<Rightarrow> splitG m (seg @ [c]) cs
      | Some 0 \<Rightarrow> splitG m (seg @ [c]) cs
      | Some (Suc n) \<Rightarrow> seg # splitG m [] (drop n cs))"

section \<open>Cell text extraction\<close>

text \<open>
  A table cell as cheerio presents it: \<open>$(td).text()\<close> and \<open>$(td).html()\<close>, the latter
  possibly \<open>null\<close>.
\<close>

record cell =
  td_text :: jsstring
  td_html :: "jsstring option"

text \<open>\<open>/^MM\/dd(\s+)HH:mm$/i.test(text)\<close>.\<close>

definition templateRe :: "jsstring \<Rightarrow> bool" where
  "templateRe s \<longleftrightarrow>
     ciEq (take 5 s) (js ''MM/dd'') \<and>
     takeWhile isWhite (drop 5 s) \<noteq> [] \<and>
     ciEq (dropWhile isWhite (drop 5 s)) (js ''HH:mm'')"

text \<open>\<open>/<[^>]*>/\<close>: a tag, up to the first closing bracket.\<close>

definition tagRe :: "jsstring \<Rightarrow> nat option" where
  "tagRe s =
     (case s of
        [] \<Rightarrow> None
      | c # cs \<Rightarrow>
          (if c = 0x3C \<and> dropWhile (\<lambda>x. x \<noteq> 0x3E) cs \<noteq> []
           then Some (Suc (Suc (length (takeWhile (\<lambda>x. x \<noteq> 0x3E) cs))))
           else None))"

definition extractCellText :: "cell \<Rightarrow> jsstring" where
  "extractCellText td =
     (let text = decode (td_text td)
      in if templateRe text \<or> text = [] \<or> text = [0x2014]
         then (let html = orEmpty (td_html td);
                   stripped = decode (replaceG tagRe [] html)
               in if stripped \<noteq> [] then stripped else text)
         else text)"

section \<open>Name/Title Splitter\<close>

record nameTitle =
  nt_name :: "jsstring option"
  nt_title :: "jsstring option"

text \<open>The class \<open>[-\<dots>]\<close> of the separator: hyphen-minus, en dash U+2013, em dash U+2014.\<close>

definition isDash :: "jschar \<Rightarrow> bool" where
  "isDash c \<longleftrightarrow> c = 0x2D \<or> c = 0x2013 \<or> c = 0x2014"

text \<open>\<open>/\s*[-\<dots>]\s+/\<close>: both runs of white space are greedy, and neither can give a code
  unit back, since what follows a run is not white space.\<close>

definition sepRe :: "jsstring \<Rightarrow> nat option" where
  "sepRe s =
     (let w = takeWhile isWhite s; r = dropWhile isWhite s
      in case r of
           [] \<Rightarrow> None
         | d # r' \<Rightarrow>
             (let n = length (takeWhile isWhite r')
              in if isDash d \<and> 0 < n then Some (length w + 1 + n) else None))"

definition splitNameAndTitle :: "jsstring \<Rightarrow> nameTitle" where
  "splitNameAndTitle raw =
     (let t = decode raw
      in if t = [] then \<lparr>nt_name = None, nt_title = None\<rparr>
         else (let parts = splitG sepRe [] t
               in if 2 \<le> length parts
                  then \<lparr>nt_name = orNull (trim (hd parts)),
                        nt_title = orNull (trim (join (js '' - '') (tl parts)))\<rparr>
                  else \<lparr>nt_name = Some t, nt_title = None\<rparr>))"

section \<open>Phone Normalizer\<close>

record contact =
  ph_raw :: "jsstring option"
  ph_digits :: "jsstring option"
  ph_e164 :: "jsstring option"
  ph_pretty :: "jsstring option"

text \<open>\<open>text.replace(/\D+/g, "")\<close> deletes every run of non-digits: the digits stay.\<close>

definition nonDigitRe :: "jsstring \<Rightarrow> nat option" where
  "nonDigitRe s =
     (let n = length (takeWhile (\<lambda>c. \<not> isDigit c) s) in if 0 < n then Some n else None)"

definition parsePhone :: "jsstring \<Rightarrow> contact" where
  "parsePhone raw =
     (let text = decode raw
      in if text = [] then \<lparr>ph_raw = None, ph_digits = None, ph_e164 = None, ph_pretty = None\<rparr>
         else (let digits = replaceG nonDigitRe [] text
               in if digits = []
                  then \<lparr>ph_raw = Some text, ph_digits = None, ph_e164 = None,
                        ph_pretty = Some text\<rparr>
                  else if length digits = 10
                  then \<lparr>ph_raw = Some text, ph_digits = Some digits,
                        ph_e164 = Some (js ''+1'' @ digits),
                        ph_pretty = Some (js ''('' @ take 3 digits @ js '') '' @
                                          take 3 (drop 3 digits) @ js ''-'' @ drop 6 digits)\<rparr>
                  else if length digits = 7
                  then \<lparr>ph_raw = Some text, ph_digits = Some digits, ph_e164 = None,
                        ph_pretty = Some (take 3 digits @ js ''-'' @ drop 3 digits)\<rparr>
                  else \<lparr>ph_raw = Some text, ph_digits = Some digits,
                        ph_e164 = (if 11 \<le> length digits then Some (js ''+'' @ digits) else None),
                        ph_pretty = Some text\<rparr>))"


section \<open>Returning-Time Parser\<close>

record returning =
  rt_raw :: "jsstring option"
  rt_hhmm :: "jsstring option"
  rt_pretty :: "jsstring option"
  rt_tokens :: "jsstring list"

text \<open>\<open>/^\d{3,4}$/.test(text)\<close>.\<close>

definition digits34 :: "jsstring \<Rightarrow> bool" where
  "digits34 s \<longleftrightarrow> (length s = 3 \<or> length s = 4) \<and> list_all isDigit s"

text \<open>
  The expression \<open>/\b(\d{1,2}):?(\d{2})?\s*(AM|PM)\b/i\<close> backtracks. Each part is a
  function from the remaining text to the list of ways it can match there, in the order
  in which the matcher tries them (a greedy quantifier tries the longest first); the
  parts are chained, and the first way through all of them is the match.
\<close>

record meridiem =
  m1 :: jsstring
  m2 :: "jsstring option"
  m3 :: jsstring

text \<open>\<open>(\d{1,2})\<close>: two digits, then one.\<close>

definition hourAlts :: "jsstring \<Rightarrow> (jsstring \<times> jsstring) list" where
  "hourAlts s =
     (if 2 \<le> length s \<and> list_all isDigit (take 2 s) then [(take 2 s, drop 2 s)] else []) @
     (if 1 \<le> length s \<and> list_all isDigit (take 1 s) then [(take 1 s, drop 1 s)] else [])"

text \<open>\<open>:?\<close>: with the colon, then without.\<close>

definition colonAlts :: "jsstring \<Rightarrow> jsstring list" where
  "colonAlts s = (case s of [] \<Rightarrow> [] | c # cs \<Rightarrow> if c = 0x3A then [cs] else []) @ [s]"

text \<open>\<open>(\d{2})?\<close>: with the two digits, then without (the group is then undefined).\<close>

definition minuteAlts :: "jsstring \<Rightarrow> (jsstring option \<times> jsstring) list" where
  "minuteAlts s =
     (if 2 \<le> length s \<and> list_all isDigit (take 2 s) then [(Some (take 2 s), drop 2 s)] else []) @
     [(None, s)]"

text \<open>\<open>\s*\<close>: the whole run of white space, then one code unit less at a time.\<close>

definition spaceAlts :: "jsstring \<Rightarrow> jsstring list" where
  "spaceAlts s = map (\<lambda>k. drop k s) (rev [0..<Suc (length (takeWhile isWhite s))])"

text \<open>\<open>\b\<close> between two positions; outside the text there is no word character.\<close>

definition wordBoundary :: "jschar option \<Rightarrow> jschar option \<Rightarrow> bool" where
  "wordBoundary a b \<longleftrightarrow>
     (case a of None \<Rightarrow> False | Some x \<Rightarrow> isWordChar x) \<noteq>
     (case b of None \<Rightarrow> False | Some y \<Rightarrow> isWordChar y)"

text \<open>\<open>(AM|PM)\b\<close> under the \<open>i\<close> flag: \<open>AM\<close> is tried first.\<close>

definition ampmAlts :: "jsstring \<Rightarrow> jsstring list" where
  "ampmAlts s =
     (if 2 \<le> length s \<and> ciEq (take 2 s) (js ''AM'') \<and>
         wordBoundary (Some (s ! 1)) (case drop 2 s of [] \<Rightarrow> None | c # cs \<Rightarrow> Some c)
      then [take 2 s] else []) @
     (if 2 \<le> length s \<and> ciEq (take 2 s) (js ''PM'') \<and>
         wordBoundary (Some (s ! 1)) (case drop 2 s of [] \<Rightarrow> None | c # cs \<Rightarrow> Some c)
      then [take 2 s] else [])"

definition meridiemAlts :: "jsstring \<Rightarrow> meridiem list" where
  "meridiemAlts s =
     concat (map (\<lambda>(h, r1).
       concat (map (\<lambda>r2.
         concat (map (\<lambda>(mm, r3).
           concat (map (\<lambda>r4.
             map (\<lambda>ap. \<lparr>m1 = h, m2 = mm, m3 = ap\<rparr>) (ampmAlts r4))
           (spaceAlts r3)))
         (minuteAlts r2)))
       (colonAlts r1)))
     (hourAlts s))"

text \<open>
  \<open>text.match(re)\<close> without the \<open>g\<close> flag: the first position, from the left, at which
  the expression matches. \<open>prev\<close> is the code unit before the position, for the leading
  \<open>\b\<close>. At the end of the text nothing matches, as the expression needs a digit.
\<close>

fun meridiemSearch :: "jschar option \<Rightarrow> jsstring \<Rightarrow> meridiem option" where
  "meridiemSearch prev [] = None"
| "meridiemSearch prev (c # cs) =
     (if wordBoundary prev (Some c)
      then (case meridiemAlts (c # cs) of
              [] \<Rightarrow> meridiemSearch (Some c) cs
            | m # ms \<Rightarrow> Some m)
      else meridiemSearch (Some c) cs)"

text \<open>\<open>text.match(/[A-Za-z]+/g) || []\<close>: the maximal runs of ASCII letters, in order.\<close>

function letterRuns :: "jsstring \<Rightarrow> jsstring list" where
  "letterRuns [] = []"
| "letterRuns (c # cs) =
     (if isAlpha c
      then takeWhile isAlpha (c # cs) # letterRuns (dropWhile isAlpha cs)
      else letterRuns cs)"
  by pat_completeness auto
termination
  by (relation "measure length") (auto simp: length_dropWhile_le less_Suc_eq_le)

definition parseReturning :: "jsstring \<Rightarrow> returning" where
  "parseReturning raw =
     (let text = decode raw
      in if text = [] then \<lparr>rt_raw = None, rt_hhmm = None, rt_pretty = None, rt_tokens = []\<rparr>
         else if digits34 text
         then (let padded = padStart 4 text;
                   hh = take 2 padded;
                   mm = take 2 (drop 2 padded);
                   pretty = numberString hh @ js '':'' @ mm
               in \<lparr>rt_raw = Some text, rt_hhmm = Some (hh @ js '':'' @ mm),
                   rt_pretty = Some pretty, rt_tokens = [pretty]\<rparr>)
         else (case meridiemSearch None text of
                 Some m \<Rightarrow>
                   (let h = padStart 2 (m1 m);
                        mm = padStart 2 (case m2 m of None \<Rightarrow> js ''00'' | Some d \<Rightarrow> d);
                        ampm = map asciiUpper (m3 m)
                    in \<lparr>rt_raw = Some text, rt_hhmm = Some (h @ js '':'' @ mm),
                        rt_pretty = Some (numberString h @ js '':'' @ mm @ js '' '' @ ampm),
                        rt_tokens = [ampm]\<rparr>)
               | None \<Rightarrow>
                   \<lparr>rt_raw = Some text, rt_hhmm = None, rt_pretty = Some text,
                    rt_tokens = letterRuns text\<rparr>))"

section \<open>Updated-Timestamp Parser\<close>

record updated =
  up_local :: "jsstring option"
  up_isoGuess :: "jsstring option"
  up_epochMs :: "int option"
  up_debug :: "jsstring option"

text \<open>
  \<open>new Date(text)\<close> parses by the host's rules, which the repository does not fix: the
  parser takes them as \<open>dateParse\<close>, which gives \<open>toISOString()\<close> and \<open>getTime()\<close> of a
  valid date and \<open>None\<close> where \<open>getTime()\<close> is \<open>NaN\<close>. The time value of a valid date is
  an integer, so the second test on \<open>epochMs\<close> never fires.
\<close>

definition parseUpdatedFromCell :: "(jsstring \<Rightarrow> (jsstring \<times> int) option) \<Rightarrow> cell \<Rightarrow> updated" where
  "parseUpdatedFromCell dateParse td =
     (let text = extractCellText td
      in if templateRe text
         then \<lparr>up_local = None, up_isoGuess = None, up_epochMs = None,
               up_debug = Some (js ''FormatTokenSeen'')\<rparr>
         else (case (if text \<noteq> [] then dateParse text else None) of
                 Some (isoStr, ms) \<Rightarrow>
                   \<lparr>up_local = orNull text, up_isoGuess = Some isoStr, up_epochMs = Some ms,
                    up_debug = None\<rparr>
               | None \<Rightarrow>
                   \<lparr>up_local = orNull text, up_isoGuess = None, up_epochMs = None,
                    up_debug = None\<rparr>))"

section \<open>Status Classifier\<close>

text \<open>The four strings that \<open>normalizeStatus\<close> returns.\<close>

datatype status = In | Out | Unavailable | Unknown

definition normalizeStatus :: "jsstring option \<Rightarrow> jsstring option \<Rightarrow> status" where
  "normalizeStatus trClass cellText =
     (let c = toLowerCase (orEmpty trClass);
          t = toLowerCase (orEmpty cellText)
      in if testLit (js ''initem'') c \<or> t = js ''in'' then In
         else if testLit (js ''outitem'') c \<or> t = js ''out'' then Out
         else if testLit (js ''unavailable'') c \<or> t = js ''unavailable'' then Unavailable
         else Unknown)"


section \<open>Row Assembler\<close>

text \<open>
  A table row as cheerio presents it: its \<open>class\<close> and \<open>id\<close> attributes (\<open>undefined\<close>
  when absent) and the cells found by \<open>$tr.find("td.OtlkItem")\<close>.
\<close>

record row =
  tr_class :: "jsstring option"
  tr_id :: "jsstring option"
  tr_cells :: "cell list"

record flags =
  isIn :: bool
  isOut :: bool
  isUnavailable :: bool

record meta =
  mt_trClass :: "jsstring option"
  mt_rowIdAttr :: "jsstring option"
  mt_parsedAt :: jsstring
  mt_flags :: flags

record boardRecord =
  r_id :: jsstring
  r_status :: status
  r_name :: "jsstring option"
  r_title :: "jsstring option"
  r_contact :: contact
  r_remarks :: "jsstring option"
  r_returning :: returning
  r_updated :: updated
  r_meta :: meta

text \<open>\<open>s.replace(/^Row/, "")\<close>.\<close>

definition stripRow :: "jsstring \<Rightarrow> jsstring" where
  "stripRow s = (if take 3 s = js ''Row'' then drop 3 s else s)"

text \<open>\<open>now\<close> is what \<open>new Date().toISOString()\<close> gives while the row is assembled.\<close>

definition rowToRecord ::
  "(jsstring \<Rightarrow> (jsstring \<times> int) option) \<Rightarrow> jsstring \<Rightarrow> row \<Rightarrow> boardRecord option" where
  "rowToRecord dateParse now tr =
     (let tds = tr_cells tr
      in if length tds < 7 then None
         else (let trClass = trim (orEmpty (tr_class tr));
                   idFromHidden = extractCellText (tds ! 0);
                   idFromAttr = stripRow (orEmpty (tr_id tr));
                   ident = (if idFromHidden \<noteq> [] then idFromHidden else idFromAttr)
               in if ident = [] then None
                  else (let st = normalizeStatus (Some trClass) (Some (extractCellText (tds ! 1)));
                            nt = splitNameAndTitle (extractCellText (tds ! 2));
                            phone = parsePhone (extractCellText (tds ! 3));
                            remarks = orNull (extractCellText (tds ! 4));
                            ret = parseReturning (extractCellText (tds ! 5));
                            upd = parseUpdatedFromCell dateParse (tds ! 6)
                        in Some
                            \<lparr>r_id = ident,
                             r_status = st,
                             r_name = (case nt_name nt of None \<Rightarrow> None | Some n \<Rightarrow> orNull n),
                             r_title = (case nt_title nt of None \<Rightarrow> None | Some n \<Rightarrow> orNull n),
                             r_contact =
                               \<lparr>ph_raw = ph_raw phone, ph_digits = ph_digits phone,
                                ph_e164 = ph_e164 phone, ph_pretty = ph_pretty phone\<rparr>,
                             r_remarks = remarks,
                             r_returning =
                               \<lparr>rt_raw = rt_raw ret, rt_hhmm = rt_hhmm ret,
                                rt_pretty = rt_pretty ret, rt_tokens = rt_tokens ret\<rparr>,
                             r_updated =
                               \<lparr>up_local = up_local upd, up_isoGuess = up_isoGuess upd,
                                up_epochMs = up_epochMs upd, up_debug = up_debug upd\<rparr>,
                             r_meta =
                               \<lparr>mt_trClass = orNull trClass,
                                mt_rowIdAttr = (case tr_id tr of None \<Rightarrow> None | Some a \<Rightarrow> orNull a),
                                mt_parsedAt = now,
                                mt_flags =
                                  \<lparr>isIn = (st = In), isOut = (st = Out),
                                   isUnavailable = (st = Unavailable)\<rparr>\<rparr>\<rparr>)))"

section \<open>Board Reducer\<close>

text \<open>
  \<open>items.reduce((acc, r) => ((acc[r.id] = r), acc), {})\<close> fills a plain object. Its own
  properties are kept here in the order of their creation. Assigning to an existing key
  keeps the key's place. Assigning to the key \<open>__proto__\<close> runs the setter inherited from
  \<open>Object.prototype\<close>: it changes the prototype of \<open>acc\<close> and creates no own property.
\<close>

fun objSet :: "(jsstring \<times> 'v) list \<Rightarrow> jsstring \<Rightarrow> 'v \<Rightarrow> (jsstring \<times> 'v) list" where
  "objSet [] k v = [(k, v)]"
| "objSet ((k', v') # ps) k v = (if k' = k then (k, v) # ps else (k', v') # objSet ps k v)"

definition assign :: "(jsstring \<times> boardRecord) list \<Rightarrow> boardRecord \<Rightarrow> (jsstring \<times> boardRecord) list" where
  "assign acc r = (if r_id r = js ''__proto__'' then acc else objSet acc (r_id r) r)"

text \<open>
  \<open>Object.values\<close> lists the own properties: first the keys that are array indices (the
  canonical decimal numerals up to \<open>2^32 - 2\<close>) in ascending numeric order, then the other
  keys in the order of their creation.
\<close>

definition digitsValue :: "jsstring \<Rightarrow> int" where
  "digitsValue k = foldl (\<lambda>n c. 10 * n + uint (c - 0x30)) 0 k"

definition isArrayIndex :: "jsstring \<Rightarrow> bool" where
  "isArrayIndex k \<longleftrightarrow>
     k \<noteq> [] \<and> list_all isDigit k \<and> (hd k = 0x30 \<longrightarrow> length k = 1) \<and>
     digitsValue k \<le> 4294967294"

definition objectValues :: "(jsstring \<times> 'v) list \<Rightarrow> 'v list" where
  "objectValues acc =
     map snd (sort_key (\<lambda>p. digitsValue (fst p)) (filter (\<lambda>p. isArrayIndex (fst p)) acc) @
              filter (\<lambda>p. \<not> isArrayIndex (fst p)) acc)"

text \<open>
  The table \<open>order\<close>. A status is one of the four, so the default \<open>?? 99\<close> is never
  taken.
\<close>

fun statusOrder :: "status \<Rightarrow> int" where
  "statusOrder In = 0"
| "statusOrder Out = 1"
| "statusOrder Unavailable = 2"
| "statusOrder Unknown = 3"

text \<open>
  The comparator of the sort. \<open>localeCompare\<close> follows the host's locale, which the
  repository does not fix: it is the parameter \<open>lc\<close>.
\<close>

definition compareRecords :: "(jsstring \<Rightarrow> jsstring \<Rightarrow> int) \<Rightarrow> boardRecord \<Rightarrow> boardRecord \<Rightarrow> int" where
  "compareRecords lc a b =
     (let aK = statusOrder (r_status a); bK = statusOrder (r_status b)
      in if aK \<noteq> bK then aK - bK else lc (orEmpty (r_name a)) (orEmpty (r_name b)))"

text \<open>
  \<open>Array.prototype.sort\<close> is a stable sort by the comparator: an element stays before a
  later one unless the comparator puts it strictly after. Insertion from the right does
  that.
\<close>

fun insertBy :: "('a \<Rightarrow> 'a \<Rightarrow> int) \<Rightarrow> 'a \<Rightarrow> 'a list \<Rightarrow> 'a list" where
  "insertBy cmp x [] = [x]"
| "insertBy cmp x (y # ys) = (if cmp x y \<le> 0 then x # y # ys else y # insertBy cmp x ys)"

definition sortBy :: "('a \<Rightarrow> 'a \<Rightarrow> int) \<Rightarrow> 'a list \<Rightarrow> 'a list" where
  "sortBy cmp xs = foldr (insertBy cmp) xs []"

definition reduceBoard :: "(jsstring \<Rightarrow> jsstring \<Rightarrow> int) \<Rightarrow> boardRecord list \<Rightarrow> boardRecord list" where
  "reduceBoard lc items = sortBy (compareRecords lc) (objectValues (foldl assign [] items))"

section \<open>Snapshot Cache\<close>

record fetchError =
  message :: jsstring
  time :: jsstring

record cache =
  lastFetched :: "jsstring option"
  items :: "boardRecord list"
  error :: "fetchError option"

definition initialCache :: cache where
  "initialCache = \<lparr>lastFetched = None, items = [], error = None\<rparr>"

text \<open>
  What the \<open>try\<close> block meets: either an exception, with the \<open>message\<close> of the error if
  it has one, or the rows selected from the loaded page.
\<close>

datatype outcome = Failed "jsstring option" | Loaded "row list"

text \<open>
  One refresh cycle. \<open>rowTime i\<close> is the clock while row \<open>i\<close> is assembled, \<open>now\<close> the
  clock when the cache is written.
\<close>

definition fetchBoard ::
  "(jsstring \<Rightarrow> jsstring \<Rightarrow> int) \<Rightarrow> (jsstring \<Rightarrow> (jsstring \<times> int) option) \<Rightarrow> (nat \<Rightarrow> jsstring) \<Rightarrow>
   jsstring \<Rightarrow> outcome \<Rightarrow> cache \<Rightarrow> cache" where
  "fetchBoard lc dateParse rowTime now oc c =
     (case oc of
        Loaded rows \<Rightarrow>
          (let recs = List.map_filter (\<lambda>(i, tr). rowToRecord dateParse (rowTime i) tr)
                        (zip [0..<length rows] rows);
               kept = filter (\<lambda>r. r_id r \<noteq> []) recs
           in \<lparr>lastFetched = Some now, items = reduceBoard lc kept, error = None\<rparr>)
      | Failed msg \<Rightarrow>
          c\<lparr>error := Some \<lparr>message = (if orEmpty msg = [] then js ''Unknown error'' else orEmpty msg),
                            time = now\<rparr>\<rparr>)"

text \<open>
  The timer runs one refresh cycle after the other. A cycle is given by its clock readings
  and by what its \<open>try\<close> block meets.
\<close>

record cycle =
  cy_rowTime :: "nat \<Rightarrow> jsstring"
  cy_now :: jsstring
  cy_outcome :: outcome

definition isFailed :: "outcome \<Rightarrow> bool" where
  "isFailed oc = (case oc of Failed msg \<Rightarrow> True | Loaded rows \<Rightarrow> False)"

definition runCycles ::
  "(jsstring \<Rightarrow> jsstring \<Rightarrow> int) \<Rightarrow> (jsstring \<Rightarrow> (jsstring \<times> int) option) \<Rightarrow> cycle list \<Rightarrow>
   cache \<Rightarrow> cache" where
  "runCycles lc dateParse cys c =
     foldl (\<lambda>c cy. fetchBoard lc dateParse (cy_rowTime cy) (cy_now cy) (cy_outcome cy) c) c cys"

section \<open>The specification's reading of the Status Classifier\<close>

text \<open>
  The classifier as the specification words it: the class attribute is searched for the
  three markers first, in the order In, Out, Unavailable; the cell text is compared only
  when the class carries no marker.
\<close>

definition classifySpec :: "jsstring option \<Rightarrow> jsstring option \<Rightarrow> status" where
  "classifySpec trClass cellText =
     (let c = toLowerCase (orEmpty trClass);
          t = toLowerCase (orEmpty cellText)
      in if testLit (js ''initem'') c then In
         else if testLit (js ''outitem'') c then Out
         else if testLit (js ''unavailable'') c then Unavailable
         else if t = js ''in'' then In
         else if t = js ''out'' then Out
         else if t = js ''unavailable'' then Unavailable
         else Unknown)"

section \<open>The specification's reading of the free-form tokens\<close>

text \<open>
  The alphabetic words of a text, in their order: cut the text at every code unit that
  is not an ASCII letter and keep the pieces that are not empty.
\<close>

fun splitOn :: "('a \<Rightarrow> bool) \<Rightarrow> 'a list \<Rightarrow> 'a list list" where
  "splitOn P [] = [[]]"
| "splitOn P (c # cs) =
     (if P c then [] # splitOn P cs
      else (case splitOn P cs of [] \<Rightarrow> [[c]] | w # ws \<Rightarrow> (c # w) # ws))"

definition alphaWords :: "jsstring \<Rightarrow> jsstring list" where
  "alphaWords s = filter (\<lambda>w. w \<noteq> []) (splitOn (\<lambda>c. \<not> isAlpha c) s)"

section \<open>The specification's reading of the name separator\<close>

text \<open>
  A hyphen-like separator followed by white space occurs in the text: some hyphen, en
  dash or em dash stands directly before a white-space code unit.
\<close>

fun dashThenWhite :: "jsstring \<Rightarrow> bool" where
  "dashThenWhite (a # b # r) = ((isDash a \<and> isWhite b) \<or> dashThenWhite (b # r))"
| "dashThenWhite [a] = False"
| "dashThenWhite [] = False"

section \<open>The specification's reading of the Board Reducer\<close>

text \<open>
  The last record in source order that carries the id \<open>k\<close>, and the order of two records
  by the sort key: status priority first, then the name, where \<open>null\<close> counts as the
  empty string.
\<close>

definition lastWithId :: "jsstring \<Rightarrow> boardRecord list \<Rightarrow> boardRecord option" where
  "lastWithId k rs = find (\<lambda>r. r_id r = k) (rev rs)"

definition keyLeq :: "(jsstring \<Rightarrow> jsstring \<Rightarrow> int) \<Rightarrow> boardRecord \<Rightarrow> boardRecord \<Rightarrow> bool" where
  "keyLeq lc a b \<longleftrightarrow>
     statusOrder (r_status a) < statusOrder (r_status b) \<or>
     (statusOrder (r_status a) = statusOrder (r_status b) \<and>
      lc (orEmpty (r_name a)) (orEmpty (r_name b)) \<le> 0)"

section \<open>Entity literals left in a text\<close>

text \<open>One of the four entity literals that \<open>decode\<close> rewrites occurs in the text.\<close>

definition hasEntity :: "jsstring \<Rightarrow> bool" where
  "hasEntity s \<longleftrightarrow>
     testLit (js ''&nbsp;'') s \<or> testLit (js ''&amp;'') s \<or>
     testLit (js ''&lt;'') s \<or> testLit (js ''&gt;'') s"

section \<open>Sample cells and rows\<close>

text \<open>A cell that holds plain text and no markup: its inner HTML is its text.\<close>

definition sampleCell :: "string \<Rightarrow> cell" where
  "sampleCell t = \<lparr>td_text = js t, td_html = Some (js t)\<rparr>"

definition sampleRow :: row where
  "sampleRow =
     \<lparr>tr_class = Some (js ''InItem''), tr_id = Some (js ''Row17''),
      tr_cells = map sampleCell
        [''a1'', ''In'', ''Ann Lee - Pilot'', ''701.777.7868'', '''', ''1145'', ''MM/dd HH:mm'']\<rparr>"

text \<open>A record that carries nothing but an id, a status and a name.\<close>

definition sampleRecord :: "string \<Rightarrow> status \<Rightarrow> string \<Rightarrow> boardRecord" where
  "sampleRecord ident st nm =
     \<lparr>r_id = js ident, r_status = st, r_name = orNull (js nm), r_title = None,
      r_contact = \<lparr>ph_raw = None, ph_digits = None, ph_e164 = None, ph_pretty = None\<rparr>,
      r_remarks = None,
      r_returning = \<lparr>rt_raw = None, rt_hhmm = None, rt_pretty = None, rt_tokens = []\<rparr>,
      r_updated = \<lparr>up_local = None, up_isoGuess = None, up_epochMs = None, up_debug = None\<rparr>,
      r_meta = \<lparr>mt_trClass = None, mt_rowIdAttr = None, mt_parsedAt = [],
                mt_flags = \<lparr>isIn = (st = In), isOut = (st = Out),
                            isUnavailable = (st = Unavailable)\<rparr>\<rparr>\<rparr>"

text \<open>A row of the page whose hidden identity cell reads \<open>__proto__\<close>.\<close>

definition protoRow :: row where
  "protoRow =
     \<lparr>tr_class = Some (js ''InItem''), tr_id = None,
      tr_cells = map sampleCell
        [''__proto__'', ''In'', ''Ann Lee'', '''', '''', '''', '''']\<rparr>"

text \<open>A comparison of strings by code units, standing for a locale's collation.\<close>

fun unitCompare :: "jsstring \<Rightarrow> jsstring \<Rightarrow> int" where
  "unitCompare [] [] = 0"
| "unitCompare [] (y # ys) = - 1"
| "unitCompare (x # xs) [] = 1"
| "unitCompare (x # xs) (y # ys) =
     (if x < y then - 1 else if y < x then 1 else unitCompare xs ys)"

section \<open>Properties of the Row Assembler\<close>

text \<open>
  Claim C10. Every record that \<open>rowToRecord\<close> produces has flags that agree with its
  status: \<open>isIn\<close> holds exactly when the status is \<open>In\<close>, \<open>isOut\<close> exactly when it is
  \<open>Out\<close>, \<open>isUnavailable\<close> exactly when it is \<open>Unavailable\<close>, and all three are false
  exactly when the status is \<open>Unknown\<close>.
\<close>

theorem rowToRecord_flags:
  assumes "rowToRecord dateParse now tr = Some r"
  shows "(isIn (mt_flags (r_meta r)) \<longleftrightarrow> r_status r = In) \<and>
         (isOut (mt_flags (r_meta r)) \<longleftrightarrow> r_status r = Out) \<and>
         (isUnavailable (mt_flags (r_meta r)) \<longleftrightarrow> r_status r = Unavailable) \<and>
         ((\<not> isIn (mt_flags (r_meta r)) \<and> \<not> isOut (mt_flags (r_meta r)) \<and>
           \<not> isUnavailable (mt_flags (r_meta r))) \<longleftrightarrow> r_status r = Unknown)"
proof -
  obtain st where
    "mt_flags (r_meta r) =
       \<lparr>isIn = (st = In), isOut = (st = Out), isUnavailable = (st = Unavailable)\<rparr>"
    and "r_status r = st"
    using assms by (auto simp: rowToRecord_def Let_def split: if_splits)
  then show ?thesis by (cases st) simp_all
qed

lemma sampleRow_accepted: "rowToRecord (\<lambda>s. None) (js ''T'') sampleRow \<noteq> None"
  by code_simp

theorem rowToRecord_flags_witness:
  "rowToRecord (\<lambda>s. None) (js ''T'') sampleRow \<noteq> None \<and>
   isIn (mt_flags (r_meta (the (rowToRecord (\<lambda>s. None) (js ''T'') sampleRow)))) \<and>
   r_status (the (rowToRecord (\<lambda>s. None) (js ''T'') sampleRow)) = In"
proof -
  have ex: "rowToRecord (\<lambda>s. None) (js ''T'') sampleRow =
              Some (the (rowToRecord (\<lambda>s. None) (js ''T'') sampleRow))"
    using sampleRow_accepted by simp
  have "r_status (the (rowToRecord (\<lambda>s. None) (js ''T'') sampleRow)) = In"
    by code_simp
  with rowToRecord_flags [OF ex] sampleRow_accepted show ?thesis by simp
qed

section \<open>Properties of the Snapshot Cache\<close>

text \<open>
  Claim C1. In a refresh cycle that fails, \<open>items\<close> and \<open>lastFetched\<close> of the cache stay
  as they were and \<open>error\<close> becomes a record of a message and the time of the failure. In
  a refresh cycle that succeeds the cache is replaced as a whole: \<open>error\<close> is \<open>null\<close>,
  \<open>lastFetched\<close> is the time of the cycle, and nothing of the previous cache is left.
\<close>

theorem fetchBoard_snapshot:
  "items (fetchBoard lc dateParse rowTime now (Failed msg) c) = items c \<and>
   lastFetched (fetchBoard lc dateParse rowTime now (Failed msg) c) = lastFetched c \<and>
   error (fetchBoard lc dateParse rowTime now (Failed msg) c) =
     Some \<lparr>message = (if orEmpty msg = [] then js ''Unknown error'' else orEmpty msg),
           time = now\<rparr> \<and>
   error (fetchBoard lc dateParse rowTime now (Loaded rows) c) = None \<and>
   lastFetched (fetchBoard lc dateParse rowTime now (Loaded rows) c) = Some now \<and>
   fetchBoard lc dateParse rowTime now (Loaded rows) c =
     fetchBoard lc dateParse rowTime now (Loaded rows) c'"
  by (simp add: fetchBoard_def Let_def)

text \<open>
  Hence, over any run of failing cycles, \<open>items\<close> and \<open>lastFetched\<close> stay what the last
  successful cycle made them, and \<open>error\<close> carries the time of the latest failure.
\<close>

lemma failed_cycle_keeps:
  "isFailed oc \<Longrightarrow>
   items (fetchBoard lc dateParse rowTime now oc c) = items c \<and>
   lastFetched (fetchBoard lc dateParse rowTime now oc c) = lastFetched c \<and>
   (\<exists>e. error (fetchBoard lc dateParse rowTime now oc c) = Some e \<and> time e = now)"
  by (cases oc) (simp_all add: isFailed_def fetchBoard_def)

lemma failing_cycles_keep_snapshot:
  assumes "list_all (\<lambda>cy. isFailed (cy_outcome cy)) fs"
  shows "items (runCycles lc dateParse fs c) = items c \<and>
         lastFetched (runCycles lc dateParse fs c) = lastFetched c \<and>
         (fs \<noteq> [] \<longrightarrow> (\<exists>e. error (runCycles lc dateParse fs c) = Some e \<and>
                              time e = cy_now (last fs)))"
  using assms
proof (induction fs rule: rev_induct)
  case Nil
  show ?case by (simp add: runCycles_def)
next
  case (snoc f fs)
  have step: "runCycles lc dateParse (fs @ [f]) c =
                fetchBoard lc dateParse (cy_rowTime f) (cy_now f) (cy_outcome f)
                  (runCycles lc dateParse fs c)"
    by (simp add: runCycles_def)
  have "isFailed (cy_outcome f)" using snoc.prems by simp
  note k = failed_cycle_keeps [OF this, of lc dateParse "cy_rowTime f" "cy_now f"
      "runCycles lc dateParse fs c"]
  have "items (runCycles lc dateParse fs c) = items c \<and>
        lastFetched (runCycles lc dateParse fs c) = lastFetched c"
    using snoc by simp
  then show ?case unfolding step using k by simp
qed

section \<open>Properties of the Updated-Timestamp Parser\<close>

text \<open>
  Claim C4, as stated: a cell whose extracted text is the unpopulated template yields
  \<open>debug\<close> equal to \<open>template placeholder\<close>. The cell with the text \<open>MM/dd HH:mm\<close> and no
  markup refutes it: its tag is another string.
\<close>

theorem parseUpdated_placeholder_counterexample:
  "templateRe (extractCellText (sampleCell ''MM/dd HH:mm'')) \<and>
   up_debug (parseUpdatedFromCell (\<lambda>s. None) (sampleCell ''MM/dd HH:mm'')) \<noteq>
     Some (js ''template placeholder'')"
  by code_simp

text \<open>
  Claim C4, amended: a cell whose extracted text matches the unpopulated template
  \<open>MM/dd HH:mm\<close> (in any case, with any white space between the two halves) yields
  \<open>local\<close>, \<open>isoGuess\<close> and \<open>epochMs\<close> all \<open>null\<close> and \<open>debug\<close> equal to
  \<open>FormatTokenSeen\<close>.
\<close>

theorem parseUpdated_placeholder:
  "templateRe (extractCellText td) \<Longrightarrow>
   parseUpdatedFromCell dateParse td =
     \<lparr>up_local = None, up_isoGuess = None, up_epochMs = None,
      up_debug = Some (js ''FormatTokenSeen'')\<rparr>"
  by (simp add: parseUpdatedFromCell_def)

theorem parseUpdated_placeholder_witness:
  "templateRe (extractCellText (sampleCell ''mm/DD  hh:MM'')) \<and>
   parseUpdatedFromCell (\<lambda>s. None) (sampleCell ''mm/DD  hh:MM'') =
     \<lparr>up_local = None, up_isoGuess = None, up_epochMs = None,
      up_debug = Some (js ''FormatTokenSeen'')\<rparr>"
proof -
  have h: "templateRe (extractCellText (sampleCell ''mm/DD  hh:MM''))"
    by code_simp
  from parseUpdated_placeholder [OF h] h show ?thesis by simp
qed

section \<open>Properties of the Status Classifier\<close>

text \<open>
  Claim C2, as stated: the class signal takes precedence over the cell text, as in
  \<open>classifySpec\<close>. A row of class \<open>OutItem\<close> whose status cell reads \<open>In\<close> refutes it:
  \<open>normalizeStatus\<close> answers \<open>In\<close>, the class-first rule \<open>Out\<close>.
\<close>

theorem normalizeStatus_class_first_counterexample:
  "normalizeStatus (Some (js ''OutItem'')) (Some (js ''In'')) = In \<and>
   classifySpec (Some (js ''OutItem'')) (Some (js ''In'')) = Out"
  by code_simp

text \<open>
  Claim C2, amended: the classifier decides status by status. It returns \<open>In\<close> if the
  class contains \<open>initem\<close> or the cell text is \<open>in\<close>; else \<open>Out\<close> if the class contains
  \<open>outitem\<close> or the text is \<open>out\<close>; else \<open>Unavailable\<close> if the class contains
  \<open>unavailable\<close> or the text is \<open>unavailable\<close>; else \<open>Unknown\<close> (all tests on the
  lower-cased strings). The class takes precedence over the text only within one status:
  the class-first rule and the classifier agree whenever the cell text is none of the
  three status words, and whenever the class carries no marker.
\<close>

theorem normalizeStatus_by_status:
  fixes trClass cellText :: "jsstring option"
  defines "c \<equiv> toLowerCase (orEmpty trClass)"
      and "t \<equiv> toLowerCase (orEmpty cellText)"
  shows "(normalizeStatus trClass cellText = In \<longleftrightarrow>
            testLit (js ''initem'') c \<or> t = js ''in'') \<and>
         (normalizeStatus trClass cellText = Out \<longleftrightarrow>
            \<not> (testLit (js ''initem'') c \<or> t = js ''in'') \<and>
            (testLit (js ''outitem'') c \<or> t = js ''out'')) \<and>
         (normalizeStatus trClass cellText = Unavailable \<longleftrightarrow>
            \<not> (testLit (js ''initem'') c \<or> t = js ''in'') \<and>
            \<not> (testLit (js ''outitem'') c \<or> t = js ''out'') \<and>
            (testLit (js ''unavailable'') c \<or> t = js ''unavailable'')) \<and>
         (normalizeStatus trClass cellText = Unknown \<longleftrightarrow>
            \<not> (testLit (js ''initem'') c \<or> t = js ''in'') \<and>
            \<not> (testLit (js ''outitem'') c \<or> t = js ''out'') \<and>
            \<not> (testLit (js ''unavailable'') c \<or> t = js ''unavailable'')) \<and>
         (t \<noteq> js ''in'' \<and> t \<noteq> js ''out'' \<and> t \<noteq> js ''unavailable'' \<longrightarrow>
            normalizeStatus trClass cellText = classifySpec trClass cellText) \<and>
         (\<not> testLit (js ''initem'') c \<and> \<not> testLit (js ''outitem'') c \<and>
          \<not> testLit (js ''unavailable'') c \<longrightarrow>
            normalizeStatus trClass cellText = classifySpec trClass cellText)"
proof -
  have neq: "js ''in'' \<noteq> js ''out''" "js ''in'' \<noteq> js ''unavailable''" "js ''out'' \<noteq> js ''unavailable''"
    by (simp_all add: js_def)
  show ?thesis
    unfolding normalizeStatus_def classifySpec_def Let_def c_def t_def
    using neq by auto
qed

theorem normalizeStatus_by_status_witness:
  "toLowerCase (orEmpty (Some (js ''???''))) \<noteq> js ''in'' \<and>
   toLowerCase (orEmpty (Some (js ''???''))) \<noteq> js ''out'' \<and>
   toLowerCase (orEmpty (Some (js ''???''))) \<noteq> js ''unavailable'' \<and>
   \<not> testLit (js ''initem'') (toLowerCase (orEmpty None)) \<and>
   \<not> testLit (js ''outitem'') (toLowerCase (orEmpty None)) \<and>
   \<not> testLit (js ''unavailable'') (toLowerCase (orEmpty None)) \<and>
   normalizeStatus (Some (js ''InItem'')) (Some (js ''???'')) = In \<and>
   classifySpec (Some (js ''InItem'')) (Some (js ''???'')) = In \<and>
   normalizeStatus None (Some (js ''Unavailable'')) = Unavailable \<and>
   classifySpec None (Some (js ''Unavailable'')) = Unavailable \<and>
   normalizeStatus (Some (js ''FooBar'')) (Some (js ''???'')) = Unknown"
proof -
  have a: "toLowerCase (orEmpty (Some (js ''???''))) \<noteq> js ''in'' \<and>
   toLowerCase (orEmpty (Some (js ''???''))) \<noteq> js ''out'' \<and>
   toLowerCase (orEmpty (Some (js ''???''))) \<noteq> js ''unavailable''" by code_simp
  have b: "\<not> testLit (js ''initem'') (toLowerCase (orEmpty None)) \<and>
   \<not> testLit (js ''outitem'') (toLowerCase (orEmpty None)) \<and>
   \<not> testLit (js ''unavailable'') (toLowerCase (orEmpty None))" by code_simp
  have c: "classifySpec (Some (js ''InItem'')) (Some (js ''???'')) = In" by code_simp
  have d: "classifySpec None (Some (js ''Unavailable'')) = Unavailable" by code_simp
  have e: "\<not> testLit (js ''initem'') (toLowerCase (orEmpty (Some (js ''FooBar'')))) \<and>
   \<not> testLit (js ''outitem'') (toLowerCase (orEmpty (Some (js ''FooBar'')))) \<and>
   \<not> testLit (js ''unavailable'') (toLowerCase (orEmpty (Some (js ''FooBar''))))" by code_simp
  from a b c d e
    normalizeStatus_by_status [of "Some (js ''InItem'')" "Some (js ''???'')"]
    normalizeStatus_by_status [of None "Some (js ''Unavailable'')"]
    normalizeStatus_by_status [of "Some (js ''FooBar'')" "Some (js ''???'')"]
  show ?thesis by simp
qed

section \<open>Facts about the character classes, the matchers and the replacement\<close>

lemma white_not_digit: "isWhite c \<Longrightarrow> \<not> isDigit c"
  unfolding isWhite_def isDigit_def word_le_def by auto

lemma horiz_white: "isHoriz c \<Longrightarrow> isWhite c"
  by (auto simp: isHoriz_def isWhite_def SP_def TAB_def)

lemma white_NL: "isWhite NL"
  by (simp add: isWhite_def NL_def)

lemma replaceG_filter:
  "(\<And>u n. m u = Some n \<Longrightarrow> filter P (take n u) = []) \<Longrightarrow> filter P rep = [] \<Longrightarrow>
   filter P (replaceG m rep s) = filter P s"
proof (induction m rep s rule: replaceG.induct)
  case (1 m rep)
  show ?case by simp
next
  case (2 m rep c cs)
  note IH = "2.IH" and prems = "2.prems"
  show ?case
  proof (cases "m (c # cs)")
    case None
    then show ?thesis using IH(1) prems by simp
  next
    case (Some k)
    show ?thesis
    proof (cases k)
      case 0
      then show ?thesis using IH(2) prems Some by simp
    next
      case (Suc n)
      have hit: "m (c # cs) = Some (Suc n)" using Some Suc by simp
      have "filter P (take (Suc n) (c # cs)) = []" using prems(1) [OF hit] .
      then have a: "\<not> P c" "filter P (take n cs) = []" by (auto split: if_splits)
      have "filter P cs = filter P (take n cs @ drop n cs)" by simp
      also have "\<dots> = filter P (drop n cs)" using a by (simp del: append_take_drop_id)
      finally have b: "filter P cs = filter P (drop n cs)" .
      have "filter P (replaceG m rep (drop n cs)) = filter P (drop n cs)"
        using IH(3) [OF hit] prems by simp
      then show ?thesis using hit a b prems(2) by simp
    qed
  qed
qed

lemma lit_take:
  assumes "lit p u = Some n"
  shows "take n u = p" and "n = length p"
proof -
  have "take (length p) u = p \<and> n = length p"
    using assms unfolding lit_def by (cases "take (length p) u = p") simp_all
  then show "take n u = p" and "n = length p" by simp_all
qed

lemma nbspRe_take:
  assumes "nbspRe u = Some n"
  shows "take n u = [NBSP] \<or> take n u = js ''&nbsp;''"
proof (cases "lit [NBSP] u")
  case None
  then have "lit (js ''&nbsp;'') u = Some n" using assms by (simp add: nbspRe_def)
  then show ?thesis using lit_take(1) by blast
next
  case (Some k)
  then have "lit [NBSP] u = Some n" using assms by (simp add: nbspRe_def)
  then show ?thesis using lit_take(1) by blast
qed

lemma horizRe_take:
  assumes "horizRe u = Some n"
  shows "take n u = takeWhile isHoriz u" and "0 < n"
proof -
  have n: "n = length (takeWhile isHoriz u)" and pos: "0 < n"
    using assms by (auto simp: horizRe_def Let_def split: if_splits)
  show "0 < n" by (rule pos)
  show "take n u = takeWhile isHoriz u" using n takeWhile_eq_take [of isHoriz u] by simp
qed

lemma backtrackNL_bound:
  "backtrackNL k u = Some n \<Longrightarrow> 2 \<le> n \<and> n \<le> Suc k \<and> n \<le> length u \<and> u ! (n - 1) = NL"
  by (induction k u rule: backtrackNL.induct) (auto split: if_splits)

lemma wsNlRe_take:
  assumes "wsNlRe u = Some n"
  shows "2 \<le> n" "n \<le> length (takeWhile isWhite u)" "u ! (n - 1) = NL"
        "take n u = take n (takeWhile isWhite u)"
proof -
  let ?k = "length (takeWhile isWhite u)"
  have b: "2 \<le> n \<and> n \<le> Suc ?k \<and> n \<le> length u \<and> u ! (n - 1) = NL"
    using assms backtrackNL_bound by (simp add: wsNlRe_def)
  then show "2 \<le> n" "u ! (n - 1) = NL" by simp_all
  have "n \<noteq> Suc ?k"
  proof
    assume e: "n = Suc ?k"
    then have "?k < length u" using b by simp
    then have "\<not> isWhite (u ! ?k)" by (rule nth_length_takeWhile)
    moreover have "u ! ?k = NL" using b e by simp
    ultimately show False using white_NL by simp
  qed
  then show le: "n \<le> ?k" using b by simp
  have "take n u = take n (take ?k u)" using le by (simp add: min_def)
  then show "take n u = take n (takeWhile isWhite u)"
    using takeWhile_eq_take [of isWhite u] by simp
qed

lemma nlWsRe_take:
  assumes "nlWsRe u = Some n"
  shows "take n u = NL # takeWhile isWhite (tl u)" and "2 \<le> n" and "u \<noteq> []"
proof -
  obtain c cs where u: "u = c # cs" using assms by (cases u) (simp_all add: nlWsRe_def)
  have c: "c = NL" and pos: "0 < length (takeWhile isWhite cs)"
    and n: "n = Suc (length (takeWhile isWhite cs))"
    using assms u by (auto simp: nlWsRe_def Let_def split: if_splits)
  show "u \<noteq> []" using u by simp
  show "2 \<le> n" using n pos by linarith
  show "take n u = NL # takeWhile isWhite (tl u)"
    using n c u takeWhile_eq_take [of isWhite cs] by simp
qed

lemma filter_white_run:
  assumes "\<And>c. isWhite c \<Longrightarrow> \<not> P c"
  shows "filter P (take n (takeWhile isWhite u)) = []"
proof -
  have "\<forall>x \<in> set (take n (takeWhile isWhite u)). \<not> P x"
    using assms by (blast dest: in_set_takeD set_takeWhileD)
  then show ?thesis by (simp add: filter_empty_conv)
qed

lemma filter_dropWhile_white:
  "(\<And>c. isWhite c \<Longrightarrow> \<not> P c) \<Longrightarrow> filter P (dropWhile isWhite s) = filter P s"
  by (induction s) auto

lemma filter_trim: "(\<And>c. isWhite c \<Longrightarrow> \<not> P c) \<Longrightarrow> filter P (trim s) = filter P s"
proof -
  assume w: "\<And>c. isWhite c \<Longrightarrow> \<not> P c"
  have "filter P (trim s) = rev (filter P (dropWhile isWhite (rev (dropWhile isWhite s))))"
    by (simp add: trim_def rev_filter)
  also have "\<dots> = rev (filter P (rev (dropWhile isWhite s)))"
    using w by (simp add: filter_dropWhile_white)
  also have "\<dots> = filter P (dropWhile isWhite s)" by (simp add: rev_filter)
  finally show ?thesis using w by (simp add: filter_dropWhile_white)
qed

lemma no_digit_literals:
  "filter isDigit [NBSP] = []" "filter isDigit [SP] = []" "filter isDigit [NL] = []"
  "filter isDigit (js ''&nbsp;'') = []" "filter isDigit (js ''&amp;'') = []"
  "filter isDigit (js ''&lt;'') = []" "filter isDigit (js ''&gt;'') = []"
  "filter isDigit (js ''&'') = []" "filter isDigit (js ''<'') = []"
  "filter isDigit (js ''>'') = []"
  by code_simp+

lemma filter_digit_takeWhile_white: "filter isDigit (takeWhile isWhite u) = []"
proof -
  have "\<forall>x \<in> set (takeWhile isWhite u). \<not> isDigit x"
    using white_not_digit by (blast dest: set_takeWhileD)
  then show ?thesis by (simp add: filter_empty_conv)
qed

lemma decode_digits: "filter isDigit (decode s) = filter isDigit s"
proof -
  have 1: "filter isDigit (replaceG nbspRe [SP] s) = filter isDigit s" for s
    by (rule replaceG_filter) (use nbspRe_take no_digit_literals in fastforce)+
  have 2: "filter isDigit (replaceG (lit p) r s) = filter isDigit s"
    if "filter isDigit p = []" "filter isDigit r = []" for p r s
    by (rule replaceG_filter) (use that lit_take(1) in fastforce)+
  have 3: "filter isDigit (replaceG horizRe [SP] s) = filter isDigit s" for s
  proof (rule replaceG_filter)
    fix u n assume "horizRe u = Some n"
    then have "take n u = takeWhile isHoriz u" by (rule horizRe_take)
    moreover have "\<forall>x \<in> set (takeWhile isHoriz u). \<not> isDigit x"
      using horiz_white white_not_digit by (blast dest: set_takeWhileD)
    ultimately show "filter isDigit (take n u) = []" by (simp add: filter_empty_conv)
  qed (rule no_digit_literals)
  have 4: "filter isDigit (replaceG wsNlRe [NL] s) = filter isDigit s" for s
  proof (rule replaceG_filter)
    fix u n assume "wsNlRe u = Some n"
    then have "take n u = take n (takeWhile isWhite u)" by (rule wsNlRe_take)
    then show "filter isDigit (take n u) = []"
      using filter_white_run [of isDigit n u] white_not_digit by simp
  qed (rule no_digit_literals)
  have 5: "filter isDigit (replaceG nlWsRe [NL] s) = filter isDigit s" for s
  proof (rule replaceG_filter)
    fix u n assume "nlWsRe u = Some n"
    then have "take n u = NL # takeWhile isWhite (tl u)" by (rule nlWsRe_take)
    then show "filter isDigit (take n u) = []"
      using filter_digit_takeWhile_white [of "tl u"] white_not_digit [OF white_NL] by simp
  qed (rule no_digit_literals)
  show ?thesis
    unfolding decode_def
    by (simp only: filter_trim [of isDigit, OF white_not_digit] 1 2 3 4 5 no_digit_literals)
qed

lemma replaceG_nonDigit: "replaceG nonDigitRe [] s = filter isDigit s"
proof (induction s rule: length_induct)
  case (1 s)
  show ?case
  proof (cases s)
    case Nil
    then show ?thesis by simp
  next
    case (Cons c cs)
    show ?thesis
    proof (cases "isDigit c")
      case True
      then have "nonDigitRe (c # cs) = None" by (simp add: nonDigitRe_def)
      then show ?thesis using Cons True 1 by simp
    next
      case False
      let ?n = "length (takeWhile (\<lambda>c. \<not> isDigit c) cs)"
      have hit: "nonDigitRe (c # cs) = Some (Suc ?n)" using False by (simp add: nonDigitRe_def)
      have d: "drop ?n cs = dropWhile (\<lambda>c. \<not> isDigit c) cs"
        by (simp add: dropWhile_eq_drop)
      have "length (drop ?n cs) < length s" using Cons by simp
      then have "replaceG nonDigitRe [] (drop ?n cs) = filter isDigit (drop ?n cs)"
        using 1 by blast
      also have "\<dots> = filter isDigit cs"
        unfolding d by (induction cs) auto
      finally show ?thesis using Cons hit False by simp
    qed
  qed
qed

section \<open>Properties of the Phone Normalizer\<close>

text \<open>
  Claim C6. The result of \<open>parsePhone\<close> is determined by the digits \<open>d\<close> of the input
  (decoding neither adds nor removes a digit) and the decoded text: when the decoded text
  is empty all four fields are \<open>null\<close>; with no digit, \<open>digits\<close> and \<open>e164\<close> are \<open>null\<close>
  and \<open>pretty\<close> is the decoded text; with exactly 10 digits \<open>e164\<close> is \<open>+1\<close> followed by
  the digits and \<open>pretty\<close> is \<open>(AAA) BBB-CCCC\<close>; with exactly 7 digits \<open>pretty\<close> is
  \<open>AAA-BBBB\<close> and \<open>e164\<close> is \<open>null\<close>; with 11 or more digits \<open>e164\<close> is \<open>+\<close> followed
  by the digits and \<open>pretty\<close> is the decoded text; with any other count \<open>e164\<close> is
  \<open>null\<close> and \<open>pretty\<close> is the decoded text.
\<close>

theorem parsePhone_by_digit_count:
  fixes raw :: jsstring
  defines "text \<equiv> decode raw" and "d \<equiv> filter isDigit raw"
  shows "(text = [] \<longrightarrow>
            parsePhone raw =
              \<lparr>ph_raw = None, ph_digits = None, ph_e164 = None, ph_pretty = None\<rparr>) \<and>
         (text \<noteq> [] \<and> d = [] \<longrightarrow>
            parsePhone raw =
              \<lparr>ph_raw = Some text, ph_digits = None, ph_e164 = None, ph_pretty = Some text\<rparr>) \<and>
         (length d = 10 \<longrightarrow>
            parsePhone raw =
              \<lparr>ph_raw = Some text, ph_digits = Some d, ph_e164 = Some (js ''+1'' @ d),
               ph_pretty = Some (js ''('' @ take 3 d @ js '') '' @ take 3 (drop 3 d) @
                                 js ''-'' @ drop 6 d)\<rparr>) \<and>
         (length d = 7 \<longrightarrow>
            parsePhone raw =
              \<lparr>ph_raw = Some text, ph_digits = Some d, ph_e164 = None,
               ph_pretty = Some (take 3 d @ js ''-'' @ drop 3 d)\<rparr>) \<and>
         (11 \<le> length d \<longrightarrow>
            parsePhone raw =
              \<lparr>ph_raw = Some text, ph_digits = Some d, ph_e164 = Some (js ''+'' @ d),
               ph_pretty = Some text\<rparr>) \<and>
         (0 < length d \<and> length d < 10 \<and> length d \<noteq> 7 \<longrightarrow>
            parsePhone raw =
              \<lparr>ph_raw = Some text, ph_digits = Some d, ph_e164 = None,
               ph_pretty = Some text\<rparr>)"
proof -
  have dig: "replaceG nonDigitRe [] text = d"
    by (simp add: replaceG_nonDigit decode_digits d_def text_def)
  have ne: "d \<noteq> [] \<Longrightarrow> text \<noteq> []"
    using decode_digits [of raw] by (auto simp: d_def text_def)
  have p: "parsePhone raw =
    (if text = [] then \<lparr>ph_raw = None, ph_digits = None, ph_e164 = None, ph_pretty = None\<rparr>
     else if d = []
          then \<lparr>ph_raw = Some text, ph_digits = None, ph_e164 = None, ph_pretty = Some text\<rparr>
          else if length d = 10
          then \<lparr>ph_raw = Some text, ph_digits = Some d, ph_e164 = Some (js ''+1'' @ d),
                ph_pretty = Some (js ''('' @ take 3 d @ js '') '' @ take 3 (drop 3 d) @
                                  js ''-'' @ drop 6 d)\<rparr>
          else if length d = 7
          then \<lparr>ph_raw = Some text, ph_digits = Some d, ph_e164 = None,
                ph_pretty = Some (take 3 d @ js ''-'' @ drop 3 d)\<rparr>
          else \<lparr>ph_raw = Some text, ph_digits = Some d,
                ph_e164 = (if 11 \<le> length d then Some (js ''+'' @ d) else None),
                ph_pretty = Some text\<rparr>)"
    unfolding parsePhone_def Let_def text_def [symmetric] dig by (rule refl)
  show ?thesis
    unfolding p using ne by (cases "text = []"; cases "d = []") auto
qed

theorem parsePhone_by_digit_count_witness:
  "parsePhone (js '' '') =
     \<lparr>ph_raw = None, ph_digits = None, ph_e164 = None, ph_pretty = None\<rparr> \<and>
   parsePhone (js ''n/a'') =
     \<lparr>ph_raw = Some (js ''n/a''), ph_digits = None, ph_e164 = None,
      ph_pretty = Some (js ''n/a'')\<rparr> \<and>
   parsePhone (js ''701.777.7868'') =
     \<lparr>ph_raw = Some (js ''701.777.7868''), ph_digits = Some (js ''7017777868''),
      ph_e164 = Some (js ''+17017777868''), ph_pretty = Some (js ''(701) 777-7868'')\<rparr> \<and>
   parsePhone (js ''777-7868'') =
     \<lparr>ph_raw = Some (js ''777-7868''), ph_digits = Some (js ''7777868''), ph_e164 = None,
      ph_pretty = Some (js ''777-7868'')\<rparr> \<and>
   parsePhone (js ''+44 20 7946 0958'') =
     \<lparr>ph_raw = Some (js ''+44 20 7946 0958''), ph_digits = Some (js ''442079460958''),
      ph_e164 = Some (js ''+442079460958''), ph_pretty = Some (js ''+44 20 7946 0958'')\<rparr> \<and>
   parsePhone (js ''x1234'') =
     \<lparr>ph_raw = Some (js ''x1234''), ph_digits = Some (js ''1234''), ph_e164 = None,
      ph_pretty = Some (js ''x1234'')\<rparr>"
proof -
  have t: "decode (js '' '') = []" "decode (js ''n/a'') = js ''n/a''"
    "decode (js ''701.777.7868'') = js ''701.777.7868''"
    "decode (js ''777-7868'') = js ''777-7868''"
    "decode (js ''+44 20 7946 0958'') = js ''+44 20 7946 0958''"
    "decode (js ''x1234'') = js ''x1234''"
    by code_simp+
  have d: "filter isDigit (js ''n/a'') = []"
    "filter isDigit (js ''701.777.7868'') = js ''7017777868''"
    "filter isDigit (js ''777-7868'') = js ''7777868''"
    "filter isDigit (js ''+44 20 7946 0958'') = js ''442079460958''"
    "filter isDigit (js ''x1234'') = js ''1234''"
    by code_simp+
  have l: "js ''n/a'' \<noteq> []" "length (js ''7017777868'') = 10" "length (js ''7777868'') = 7"
    "11 \<le> length (js ''442079460958'')"
    "0 < length (js ''1234'') \<and> length (js ''1234'') < 10 \<and> length (js ''1234'') \<noteq> 7"
    by (simp_all add: js_def)
  have f: "js ''+1'' @ js ''7017777868'' = js ''+17017777868''"
    "js ''('' @ take 3 (js ''7017777868'') @ js '') '' @ take 3 (drop 3 (js ''7017777868'')) @
       js ''-'' @ drop 6 (js ''7017777868'') = js ''(701) 777-7868''"
    "take 3 (js ''7777868'') @ js ''-'' @ drop 3 (js ''7777868'') = js ''777-7868''"
    "js ''+'' @ js ''442079460958'' = js ''+442079460958''"
    by (simp_all add: js_def)
  show ?thesis
    using parsePhone_by_digit_count [of "js '' ''"] parsePhone_by_digit_count [of "js ''n/a''"]
      parsePhone_by_digit_count [of "js ''701.777.7868''"]
      parsePhone_by_digit_count [of "js ''777-7868''"]
      parsePhone_by_digit_count [of "js ''+44 20 7946 0958''"]
      parsePhone_by_digit_count [of "js ''x1234''"]
    unfolding t d using l f by simp
qed

section \<open>Properties of the Returning-Time Parser\<close>

lemma splitOn_nonempty: "splitOn P s \<noteq> []"
  by (induction s) (auto split: list.splits)

lemma splitOn_run:
  "\<forall>x \<in> set a. \<not> P x \<Longrightarrow> splitOn P (a @ b) = (a @ hd (splitOn P b)) # tl (splitOn P b)"
proof (induction a)
  case Nil
  then show ?case using splitOn_nonempty [of P b] by simp
next
  case (Cons x a)
  then show ?case by simp
qed

lemma letterRuns_alphaWords: "letterRuns s = alphaWords s"
proof (induction s rule: letterRuns.induct)
  case 1
  show ?case by (simp add: alphaWords_def)
next
  case (2 c cs)
  show ?case
  proof (cases "isAlpha c")
    case False
    then show ?thesis using 2 by (simp add: alphaWords_def)
  next
    case True
    let ?a = "takeWhile isAlpha (c # cs)" and ?b = "dropWhile isAlpha cs"
    have ab: "c # cs = ?a @ ?b" using True by simp
    have na: "\<forall>x \<in> set ?a. \<not> \<not> isAlpha x" by (auto dest: set_takeWhileD)
    have sp: "splitOn (\<lambda>c. \<not> isAlpha c) (c # cs) =
                (?a @ hd (splitOn (\<lambda>c. \<not> isAlpha c) ?b)) # tl (splitOn (\<lambda>c. \<not> isAlpha c) ?b)"
      using splitOn_run [of ?a "\<lambda>c. \<not> isAlpha c" ?b] na ab by metis
    have IH: "letterRuns ?b = alphaWords ?b" using 2 True by simp
    have hdtl: "hd (splitOn (\<lambda>c. \<not> isAlpha c) ?b) = [] \<and>
                filter (\<lambda>w. w \<noteq> []) (tl (splitOn (\<lambda>c. \<not> isAlpha c) ?b)) = alphaWords ?b"
    proof (cases ?b)
      case Nil
      show ?thesis unfolding Nil by (simp add: alphaWords_def)
    next
      case (Cons d r)
      then have "\<not> isAlpha d" using hd_dropWhile [of isAlpha cs] by (metis list.sel(1) list.simps(3))
      then show ?thesis unfolding Cons by (simp add: alphaWords_def)
    qed
    have a_ne: "?a \<noteq> []" using True by simp
    have "alphaWords (c # cs) = ?a # alphaWords ?b"
      unfolding alphaWords_def [of "c # cs"] sp using hdtl a_ne by simp
    then show ?thesis using True IH by simp
  qed
qed

lemma meridiemAlts_shape:
  assumes "m \<in> set (meridiemAlts s)"
  shows "(length (m1 m) = 1 \<or> length (m1 m) = 2) \<and> list_all isDigit (m1 m) \<and>
         (case m2 m of None \<Rightarrow> True | Some d \<Rightarrow> length d = 2 \<and> list_all isDigit d) \<and>
         (map asciiUpper (m3 m) = js ''AM'' \<or> map asciiUpper (m3 m) = js ''PM'')"
proof -
  have up: "map asciiUpper (js ''AM'') = js ''AM''" "map asciiUpper (js ''PM'') = js ''PM''"
    by code_simp+
  obtain h r1 r2 mm r3 r4 ap where
    h: "(h, r1) \<in> set (hourAlts s)" and "r2 \<in> set (colonAlts r1)" and
    mm: "(mm, r3) \<in> set (minuteAlts r2)" and "r4 \<in> set (spaceAlts r3)" and
    ap: "ap \<in> set (ampmAlts r4)" and m: "m = \<lparr>m1 = h, m2 = mm, m3 = ap\<rparr>"
    using assms unfolding meridiemAlts_def by auto
  have 1: "(length h = 1 \<or> length h = 2) \<and> list_all isDigit h"
    using h by (auto simp: hourAlts_def split: if_splits)
  have 2: "case mm of None \<Rightarrow> True | Some d \<Rightarrow> length d = 2 \<and> list_all isDigit d"
    using mm by (auto simp: minuteAlts_def split: if_splits)
  have 3: "map asciiUpper ap = js ''AM'' \<or> map asciiUpper ap = js ''PM''"
    using ap up by (auto simp: ampmAlts_def ciEq_def split: if_splits)
  show ?thesis using 1 2 3 m by simp
qed

lemma meridiemSearch_found:
  "meridiemSearch prev s = Some m \<Longrightarrow> \<exists>u. m \<in> set (meridiemAlts u)"
proof (induction prev s rule: meridiemSearch.induct)
  case (1 prev)
  then show ?case by simp
next
  case (2 prev c cs)
  show ?case
  proof (cases "wordBoundary prev (Some c) \<and> meridiemAlts (c # cs) \<noteq> []")
    case True
    then obtain x xs where x: "meridiemAlts (c # cs) = x # xs" by (cases "meridiemAlts (c # cs)") auto
    then have "m = x" using True "2.prems" by simp
    then show ?thesis using x by (metis list.set_intros(1))
  next
    case False
    then have "meridiemSearch (Some c) cs = Some m" using "2.prems" by (auto split: list.splits if_splits)
    then show ?thesis using False 2 by (auto split: list.splits)
  qed
qed

lemma isDigit_zero: "isDigit 0x30"
  by (simp add: isDigit_def)

text \<open>
  Claim C7, as stated: where the parser finds a meridiem-shaped time, \<open>hhmm\<close> is the time
  on the 24-hour clock, so that \<open>9:30 PM\<close> yields \<open>21:30\<close>. The input \<open>9:30 PM\<close> refutes
  it: the parser finds the time and \<open>hhmm\<close> is \<open>09:30\<close>.
\<close>

theorem parseReturning_24h_counterexample:
  "meridiemSearch None (decode (js ''9:30 PM'')) =
     Some \<lparr>m1 = js ''9'', m2 = Some (js ''30''), m3 = js ''PM''\<rparr> \<and>
   rt_hhmm (parseReturning (js ''9:30 PM'')) = Some (js ''09:30'') \<and>
   rt_hhmm (parseReturning (js ''9:30 PM'')) \<noteq> Some (js ''21:30'')"
  by code_simp

text \<open>
  Claim C7, amended: where the text is not the pure digit form and the parser finds a
  meridiem-shaped time \<open>m\<close> (an hour of one or two digits, optional minutes, AM or PM),
  \<open>hhmm\<close> is the hour as written, padded with a zero to two digits, a colon, and the
  minutes as written (\<open>00\<close> when there are none). The meridiem does not enter \<open>hhmm\<close>:
  the hour stays on the 12-hour clock. \<open>pretty\<close> is the hour without leading zero, the
  minutes and the meridiem in capitals, and \<open>tokens\<close> holds the meridiem alone.
\<close>

theorem parseReturning_meridiem:
  fixes raw :: jsstring and m :: meridiem
  assumes nd: "\<not> digits34 (decode raw)"
      and found: "meridiemSearch None (decode raw) = Some m"
  defines "h \<equiv> (if length (m1 m) = 1 then 0x30 # m1 m else m1 m)"
      and "mm \<equiv> (case m2 m of None \<Rightarrow> js ''00'' | Some d \<Rightarrow> d)"
      and "ap \<equiv> map asciiUpper (m3 m)"
  shows "length h = 2 \<and> list_all isDigit h \<and> length mm = 2 \<and> list_all isDigit mm \<and>
         (ap = js ''AM'' \<or> ap = js ''PM'') \<and>
         parseReturning raw =
           \<lparr>rt_raw = Some (decode raw), rt_hhmm = Some (h @ js '':'' @ mm),
            rt_pretty = Some (numberString h @ js '':'' @ mm @ js '' '' @ ap),
            rt_tokens = [ap]\<rparr>"
proof -
  obtain u where "m \<in> set (meridiemAlts u)" using meridiemSearch_found [OF found] ..
  note sh = meridiemAlts_shape [OF this]
  have h1: "length (m1 m) = 1 \<or> length (m1 m) = 2" and h2: "list_all isDigit (m1 m)"
    using sh by simp_all
  have hp: "padStart 2 (m1 m) = h" using h1 by (auto simp: padStart_def h_def)
  have hl: "length h = 2 \<and> list_all isDigit h"
    using h1 h2 isDigit_zero by (auto simp: h_def)
  have z: "length (js ''00'') = 2 \<and> list_all isDigit (js ''00'')" by code_simp
  have ml: "length mm = 2 \<and> list_all isDigit mm"
    using sh z by (cases "m2 m") (simp_all add: mm_def)
  then have mp: "padStart 2 mm = mm" by (simp add: padStart_def)
  have apv: "ap = js ''AM'' \<or> ap = js ''PM''" using sh by (simp add: ap_def)
  have ne: "decode raw \<noteq> []" using found by (cases "decode raw") simp_all
  have "parseReturning raw =
           \<lparr>rt_raw = Some (decode raw), rt_hhmm = Some (h @ js '':'' @ mm),
            rt_pretty = Some (numberString h @ js '':'' @ mm @ js '' '' @ ap),
            rt_tokens = [ap]\<rparr>"
    unfolding parseReturning_def Let_def using nd ne found hp mp
    by (simp add: mm_def [symmetric] ap_def [symmetric])
  then show ?thesis using hl ml apv by simp
qed

theorem parseReturning_meridiem_witness:
  "\<not> digits34 (decode (js ''9:30 PM'')) \<and>
   meridiemSearch None (decode (js ''9:30 PM'')) =
     Some \<lparr>m1 = js ''9'', m2 = Some (js ''30''), m3 = js ''PM''\<rparr> \<and>
   parseReturning (js ''9:30 PM'') =
     \<lparr>rt_raw = Some (js ''9:30 PM''), rt_hhmm = Some (js ''09:30''),
      rt_pretty = Some (js ''9:30 PM''), rt_tokens = [js ''PM'']\<rparr>"
proof -
  have a: "\<not> digits34 (decode (js ''9:30 PM''))" by code_simp
  have b: "meridiemSearch None (decode (js ''9:30 PM'')) =
     Some \<lparr>m1 = js ''9'', m2 = Some (js ''30''), m3 = js ''PM''\<rparr>" by code_simp
  have c: "decode (js ''9:30 PM'') = js ''9:30 PM''" by code_simp
  from parseReturning_meridiem [OF a b] a b show ?thesis
    unfolding c by (simp add: js_def numberString_def asciiUpper_def)
qed

text \<open>
  Claim C8, as stated: every input that matches neither the digit form nor a meridiem
  time yields \<open>pretty\<close> equal to the decoded text. The empty input refutes it: it matches
  neither, its decoded text is the empty string, and \<open>pretty\<close> is \<open>null\<close>.
\<close>

theorem parseReturning_freeform_counterexample:
  "\<not> digits34 (decode (js '''')) \<and> meridiemSearch None (decode (js '''')) = None \<and>
   rt_pretty (parseReturning (js '''')) = None \<and>
   rt_pretty (parseReturning (js '''')) \<noteq> Some (decode (js ''''))"
  by code_simp

text \<open>
  Claim C8, amended: the parser tries its branches in order. A decoded text of three or
  four digits is padded on the left to four digits \<open>p\<close>, and \<open>hhmm\<close> is the first two, a
  colon and the last two (\<open>1145\<close> yields \<open>11:45\<close>). A decoded text that is not empty and
  matches neither the digit form nor a meridiem time yields \<open>hhmm\<close> \<open>null\<close>, \<open>pretty\<close>
  equal to the decoded text and \<open>tokens\<close> equal to the alphabetic words of the text in
  their order. An empty decoded text yields \<open>null\<close> in every field and no token.
\<close>

theorem parseReturning_digits_or_freeform:
  fixes raw :: jsstring
  defines "text \<equiv> decode raw"
  defines "p \<equiv> (if length text = 3 then 0x30 # text else text)"
  shows "(digits34 text \<longrightarrow>
            length p = 4 \<and> list_all isDigit p \<and>
            parseReturning raw =
              \<lparr>rt_raw = Some text, rt_hhmm = Some (take 2 p @ js '':'' @ drop 2 p),
               rt_pretty = Some (numberString (take 2 p) @ js '':'' @ drop 2 p),
               rt_tokens = [numberString (take 2 p) @ js '':'' @ drop 2 p]\<rparr>) \<and>
         (text \<noteq> [] \<and> \<not> digits34 text \<and> meridiemSearch None text = None \<longrightarrow>
            parseReturning raw =
              \<lparr>rt_raw = Some text, rt_hhmm = None, rt_pretty = Some text,
               rt_tokens = alphaWords text\<rparr>) \<and>
         (text = [] \<longrightarrow>
            parseReturning raw =
              \<lparr>rt_raw = None, rt_hhmm = None, rt_pretty = None, rt_tokens = []\<rparr>)"
proof (intro conjI impI)
  assume d: "digits34 text"
  then have len: "length text = 3 \<or> length text = 4" and dig: "list_all isDigit text"
    by (simp_all add: digits34_def)
  have pad: "padStart 4 text = p" using len by (auto simp: padStart_def p_def)
  show "length p = 4" using len by (auto simp: p_def)
  then have t: "take 2 (drop 2 p) = drop 2 p" by simp
  show "list_all isDigit p" using dig isDigit_zero by (simp add: p_def)
  have ne: "text \<noteq> []" using len by auto
  show "parseReturning raw =
          \<lparr>rt_raw = Some text, rt_hhmm = Some (take 2 p @ js '':'' @ drop 2 p),
           rt_pretty = Some (numberString (take 2 p) @ js '':'' @ drop 2 p),
           rt_tokens = [numberString (take 2 p) @ js '':'' @ drop 2 p]\<rparr>"
    unfolding parseReturning_def Let_def text_def [symmetric] pad t using d ne by simp
next
  assume "text \<noteq> [] \<and> \<not> digits34 text \<and> meridiemSearch None text = None"
  then show "parseReturning raw =
              \<lparr>rt_raw = Some text, rt_hhmm = None, rt_pretty = Some text,
               rt_tokens = alphaWords text\<rparr>"
    unfolding parseReturning_def Let_def text_def [symmetric]
    by (simp add: letterRuns_alphaWords)
next
  assume "text = []"
  then show "parseReturning raw =
      \<lparr>rt_raw = None, rt_hhmm = None, rt_pretty = None, rt_tokens = []\<rparr>"
    unfolding parseReturning_def Let_def text_def [symmetric] by simp
qed

theorem parseReturning_digits_or_freeform_witness:
  "digits34 (decode (js ''1145'')) \<and>
   rt_hhmm (parseReturning (js ''1145'')) = Some (js ''11:45'') \<and>
   digits34 (decode (js ''945'')) \<and>
   rt_hhmm (parseReturning (js ''945'')) = Some (js ''09:45'') \<and>
   decode (js ''Thu PM mod'') \<noteq> [] \<and> \<not> digits34 (decode (js ''Thu PM mod'')) \<and>
   meridiemSearch None (decode (js ''Thu PM mod'')) = None \<and>
   parseReturning (js ''Thu PM mod'') =
     \<lparr>rt_raw = Some (js ''Thu PM mod''), rt_hhmm = None, rt_pretty = Some (js ''Thu PM mod''),
      rt_tokens = [js ''Thu'', js ''PM'', js ''mod'']\<rparr> \<and>
   decode (js '' '') = [] \<and>
   parseReturning (js '' '') =
     \<lparr>rt_raw = None, rt_hhmm = None, rt_pretty = None, rt_tokens = []\<rparr>"
proof -
  have a: "digits34 (decode (js ''1145''))" "digits34 (decode (js ''945''))"
    "decode (js ''Thu PM mod'') \<noteq> [] \<and> \<not> digits34 (decode (js ''Thu PM mod'')) \<and>
       meridiemSearch None (decode (js ''Thu PM mod'')) = None"
    "decode (js '' '') = []"
    by code_simp+
  have t: "decode (js ''1145'') = js ''1145''" "decode (js ''945'') = js ''945''"
    "decode (js ''Thu PM mod'') = js ''Thu PM mod''"
    by code_simp+
  have w: "alphaWords (js ''Thu PM mod'') = [js ''Thu'', js ''PM'', js ''mod'']"
    by code_simp
  have r: "rt_hhmm (parseReturning (js ''1145'')) = Some (js ''11:45'')"
    using parseReturning_digits_or_freeform [of "js ''1145''"] a(1)
    unfolding t by (simp add: js_def)
  have s: "rt_hhmm (parseReturning (js ''945'')) = Some (js ''09:45'')"
    using parseReturning_digits_or_freeform [of "js ''945''"] a(2)
    unfolding t by (simp add: js_def)
  have u: "parseReturning (js ''Thu PM mod'') =
     \<lparr>rt_raw = Some (js ''Thu PM mod''), rt_hhmm = None, rt_pretty = Some (js ''Thu PM mod''),
      rt_tokens = [js ''Thu'', js ''PM'', js ''mod'']\<rparr>"
    using parseReturning_digits_or_freeform [of "js ''Thu PM mod''"] a(3)
    unfolding t w by simp
  have v: "parseReturning (js '' '') =
     \<lparr>rt_raw = None, rt_hhmm = None, rt_pretty = None, rt_tokens = []\<rparr>"
    using parseReturning_digits_or_freeform [of "js '' ''"] a(4) by simp
  show ?thesis using a r s u v by simp
qed

section \<open>Properties of the Name/Title Splitter\<close>

lemma dash_not_white: "isDash c \<Longrightarrow> \<not> isWhite c"
  unfolding isDash_def isWhite_def word_le_def by auto

lemma splitG_nonempty: "splitG m seg s \<noteq> []"
  by (induction s arbitrary: seg) (auto split: option.splits nat.splits)

lemma splitG_single:
  "(\<And>j. j < length s \<Longrightarrow> m (drop j s) = None) \<Longrightarrow> splitG m seg s = [seg @ s]"
proof (induction s arbitrary: seg)
  case Nil
  show ?case by simp
next
  case (Cons c cs)
  have 0: "m (c # cs) = None" using Cons.prems [of 0] by simp
  have "\<And>j. j < length cs \<Longrightarrow> m (drop j cs) = None" using Cons.prems [of "Suc _"] by simp
  then have "splitG m (seg @ [c]) cs = [(seg @ [c]) @ cs]" by (rule Cons.IH)
  then show ?case using 0 by simp
qed

lemma splitG_first:
  "k < length s \<Longrightarrow> m (drop k s) = Some (Suc n) \<Longrightarrow> (\<And>j. j < k \<Longrightarrow> m (drop j s) = None) \<Longrightarrow>
   splitG m seg s = (seg @ take k s) # splitG m [] (drop (k + Suc n) s)"
proof (induction k arbitrary: s seg)
  case 0
  then obtain c cs where s: "s = c # cs" by (cases s) auto
  then show ?case using 0 by simp
next
  case (Suc k)
  then obtain c cs where s: "s = c # cs" by (cases s) auto
  have 0: "m (c # cs) = None" using Suc.prems(3) [of 0] s by simp
  have a: "k < length cs" "m (drop k cs) = Some (Suc n)" using Suc.prems s by simp_all
  have b: "\<And>j. j < k \<Longrightarrow> m (drop j cs) = None" using Suc.prems(3) [of "Suc _"] s by simp
  have "splitG m (seg @ [c]) cs = ((seg @ [c]) @ take k cs) # splitG m [] (drop (k + Suc n) cs)"
    using a b by (rule Suc.IH)
  then show ?case using 0 s by simp
qed

lemma dashThenWhite_append: "dashThenWhite ys \<Longrightarrow> dashThenWhite (xs @ ys)"
proof (induction xs)
  case Nil
  then show ?case by simp
next
  case (Cons x xs)
  then have "dashThenWhite (xs @ ys)" by simp
  then show ?case by (cases "xs @ ys") auto
qed

lemma dashThenWhite_drop: "dashThenWhite (drop k t) \<Longrightarrow> dashThenWhite t"
  using dashThenWhite_append [of "drop k t" "take k t"] by simp

lemma sepRe_length: "sepRe u = Some n \<Longrightarrow> 2 \<le> n"
  by (auto simp: sepRe_def Let_def Suc_le_eq split: list.splits if_splits)

lemma sepRe_dashThenWhite:
  assumes "sepRe u = Some n"
  shows "dashThenWhite u"
proof -
  obtain d r' where r: "dropWhile isWhite u = d # r'" and d: "isDash d"
    and n: "0 < length (takeWhile isWhite r')"
    using assms by (auto simp: sepRe_def Let_def split: list.splits if_splits)
  from n obtain b r'' where r': "r' = b # r''" and b: "isWhite b"
    by (cases r') (auto split: if_splits)
  have "dashThenWhite (d # b # r'')" using d b by simp
  then have "dashThenWhite (takeWhile isWhite u @ dropWhile isWhite u)"
    unfolding r r' by (rule dashThenWhite_append)
  then show ?thesis by simp
qed

lemma dashThenWhite_sepRe:
  "dashThenWhite t \<Longrightarrow> \<exists>k < length t. sepRe (drop k t) \<noteq> None"
proof (induction t rule: dashThenWhite.induct)
  case (1 a b r)
  show ?case
  proof (cases "isDash a \<and> isWhite b")
    case True
    then have "sepRe (a # b # r) \<noteq> None"
      using dash_not_white [of a] by (simp add: sepRe_def Let_def)
    then have "sepRe (drop 0 (a # b # r)) \<noteq> None" by simp
    then show ?thesis by (metis length_greater_0_conv list.simps(3))
  next
    case False
    then have "dashThenWhite (b # r)" using "1.prems" by auto
    then obtain k where "k < length (b # r)" "sepRe (drop k (b # r)) \<noteq> None"
      using "1.IH" by blast
    then have "Suc k < length (a # b # r) \<and> sepRe (drop (Suc k) (a # b # r)) \<noteq> None" by simp
    then show ?thesis by blast
  qed
qed simp_all

lemma sepRe_first:
  assumes "dashThenWhite t"
  shows "\<exists>k n. k < length t \<and> sepRe (drop k t) = Some (Suc n) \<and>
               (\<forall>j < k. sepRe (drop j t) = None)"
proof -
  let ?P = "\<lambda>k. k < length t \<and> sepRe (drop k t) \<noteq> None"
  have ex: "\<exists>k. ?P k" using dashThenWhite_sepRe [OF assms] by blast
  define k where "k = (LEAST k. ?P k)"
  have k: "?P k" unfolding k_def using ex by (rule LeastI_ex)
  have least: "\<And>j. j < k \<Longrightarrow> \<not> ?P j" unfolding k_def by (rule not_less_Least)
  obtain n0 where n0: "sepRe (drop k t) = Some n0" using k by auto
  then have "2 \<le> n0" by (rule sepRe_length)
  then obtain n where n: "n0 = Suc n" by (cases n0) auto
  have A: "k < length t" using k by simp
  have B: "sepRe (drop k t) = Some (Suc n)" using n0 n by simp
  have C: "\<forall>j < k. sepRe (drop j t) = None"
    using least A by (metis less_trans)
  show ?thesis using A B C by blast
qed

lemma splitG_sepRe_parts:
  "2 \<le> length (splitG sepRe [] t) \<longleftrightarrow> dashThenWhite t"
proof
  assume d: "dashThenWhite t"
  then obtain k n where "k < length t" "sepRe (drop k t) = Some (Suc n)"
    "\<And>j. j < k \<Longrightarrow> sepRe (drop j t) = None" using sepRe_first by blast
  then have "splitG sepRe [] t = ([] @ take k t) # splitG sepRe [] (drop (k + Suc n) t)"
    by (rule splitG_first)
  moreover have "splitG sepRe [] (drop (k + Suc n) t) \<noteq> []"
    by (rule splitG_nonempty)
  ultimately show "2 \<le> length (splitG sepRe [] t)"
    by (cases "splitG sepRe [] (drop (k + Suc n) t)") auto
next
  assume l: "2 \<le> length (splitG sepRe [] t)"
  show "dashThenWhite t"
  proof (rule ccontr)
    assume nd: "\<not> dashThenWhite t"
    have "\<And>j. j < length t \<Longrightarrow> sepRe (drop j t) = None"
    proof -
      fix j assume "j < length t"
      show "sepRe (drop j t) = None"
      proof (cases "sepRe (drop j t)")
        case (Some n)
        then have "dashThenWhite (drop j t)" by (rule sepRe_dashThenWhite)
        then show ?thesis using nd dashThenWhite_drop by blast
      qed simp
    qed
    then have "splitG sepRe [] t = [[] @ t]" by (rule splitG_single)
    then show False using l by simp
  qed
qed

text \<open>
  Claim C9, as stated: where a separator is found, the trimmed first segment becomes
  \<open>name\<close>. The input \<open>- Boss\<close> refutes it: the separator is found, the trimmed first
  segment is the empty string, and \<open>name\<close> is \<open>null\<close>.
\<close>

theorem splitNameAndTitle_first_segment_counterexample:
  "dashThenWhite (decode (js ''- Boss'')) \<and>
   trim (hd (splitG sepRe [] (decode (js ''- Boss'')))) = [] \<and>
   nt_name (splitNameAndTitle (js ''- Boss'')) = None \<and>
   nt_name (splitNameAndTitle (js ''- Boss'')) \<noteq>
     Some (trim (hd (splitG sepRe [] (decode (js ''- Boss'')))))"
  by code_simp

text \<open>
  Claim C9, amended: an input whose decoded text is empty yields \<open>name\<close> and \<open>title\<close>
  both \<open>null\<close>. A decoded text in which no hyphen, en dash or em dash stands before
  white space yields the decoded text as \<open>name\<close> and \<open>title\<close> \<open>null\<close>. Otherwise the text
  is split at the separators; the first segment is the text before the first place where
  the separator expression matches; its trimmed form becomes \<open>name\<close>, or \<open>null\<close> when it
  is empty; the remaining segments, rejoined with \<open>" - "\<close> and trimmed, become \<open>title\<close>,
  or \<open>null\<close> when that is empty.
\<close>

theorem splitNameAndTitle_cases:
  fixes raw :: jsstring
  defines "t \<equiv> decode raw"
  defines "parts \<equiv> splitG sepRe [] t"
  shows "(t = [] \<longrightarrow> splitNameAndTitle raw = \<lparr>nt_name = None, nt_title = None\<rparr>) \<and>
         (t \<noteq> [] \<and> \<not> dashThenWhite t \<longrightarrow>
            splitNameAndTitle raw = \<lparr>nt_name = Some t, nt_title = None\<rparr>) \<and>
         (dashThenWhite t \<longrightarrow>
            splitNameAndTitle raw =
              \<lparr>nt_name = orNull (trim (hd parts)),
               nt_title = orNull (trim (join (js '' - '') (tl parts)))\<rparr> \<and>
            (\<exists>k n. k < length t \<and> sepRe (drop k t) = Some (Suc n) \<and>
                   (\<forall>j < k. sepRe (drop j t) = None) \<and>
                   hd parts = take k t \<and> tl parts = splitG sepRe [] (drop (k + Suc n) t)))"
proof (intro conjI impI)
  assume "t = []"
  then show "splitNameAndTitle raw = \<lparr>nt_name = None, nt_title = None\<rparr>"
    unfolding splitNameAndTitle_def Let_def t_def [symmetric] by simp
next
  assume a: "t \<noteq> [] \<and> \<not> dashThenWhite t"
  then have "\<not> 2 \<le> length (splitG sepRe [] t)" by (simp add: splitG_sepRe_parts)
  then show "splitNameAndTitle raw = \<lparr>nt_name = Some t, nt_title = None\<rparr>"
    unfolding splitNameAndTitle_def Let_def t_def [symmetric] using a by simp
next
  assume d: "dashThenWhite t"
  then have ne: "t \<noteq> []" by (cases t) auto
  have "2 \<le> length (splitG sepRe [] t)" using d by (simp add: splitG_sepRe_parts)
  then show "splitNameAndTitle raw =
              \<lparr>nt_name = orNull (trim (hd parts)),
               nt_title = orNull (trim (join (js '' - '') (tl parts)))\<rparr>"
    unfolding splitNameAndTitle_def Let_def t_def [symmetric] parts_def using ne by simp
next
  assume d: "dashThenWhite t"
  then obtain k n where k: "k < length t" "sepRe (drop k t) = Some (Suc n)"
    "\<forall>j < k. sepRe (drop j t) = None" using sepRe_first by blast
  then have "splitG sepRe [] t = ([] @ take k t) # splitG sepRe [] (drop (k + Suc n) t)"
    by (intro splitG_first) auto
  then have "hd parts = take k t \<and> tl parts = splitG sepRe [] (drop (k + Suc n) t)"
    by (simp add: parts_def)
  then show "\<exists>k n. k < length t \<and> sepRe (drop k t) = Some (Suc n) \<and>
                   (\<forall>j < k. sepRe (drop j t) = None) \<and>
                   hd parts = take k t \<and> tl parts = splitG sepRe [] (drop (k + Suc n) t)"
    using k by blast
qed

theorem splitNameAndTitle_cases_witness:
  "decode (js '' '') = [] \<and>
   splitNameAndTitle (js '' '') = \<lparr>nt_name = None, nt_title = None\<rparr> \<and>
   decode (js ''Mary-Jane Smith'') \<noteq> [] \<and> \<not> dashThenWhite (decode (js ''Mary-Jane Smith'')) \<and>
   splitNameAndTitle (js ''Mary-Jane Smith'') =
     \<lparr>nt_name = Some (js ''Mary-Jane Smith''), nt_title = None\<rparr> \<and>
   dashThenWhite (decode (js ''Ann Lee '' @ [0x2013] @ js '' Pilot - Chief'')) \<and>
   splitNameAndTitle (js ''Ann Lee '' @ [0x2013] @ js '' Pilot - Chief'') =
     \<lparr>nt_name = Some (js ''Ann Lee''), nt_title = Some (js ''Pilot - Chief'')\<rparr>"
proof -
  have a: "decode (js '' '') = []"
    "decode (js ''Mary-Jane Smith'') \<noteq> [] \<and> \<not> dashThenWhite (decode (js ''Mary-Jane Smith''))"
    "dashThenWhite (decode (js ''Ann Lee '' @ [0x2013] @ js '' Pilot - Chief''))"
    by code_simp+
  have t: "decode (js ''Mary-Jane Smith'') = js ''Mary-Jane Smith''" by code_simp
  have p: "orNull (trim (hd (splitG sepRe []
             (decode (js ''Ann Lee '' @ [0x2013] @ js '' Pilot - Chief''))))) =
           Some (js ''Ann Lee'')"
    "orNull (trim (join (js '' - '') (tl (splitG sepRe []
             (decode (js ''Ann Lee '' @ [0x2013] @ js '' Pilot - Chief'')))))) =
           Some (js ''Pilot - Chief'')"
    by code_simp+
  have 1: "splitNameAndTitle (js '' '') = \<lparr>nt_name = None, nt_title = None\<rparr>"
    using splitNameAndTitle_cases [of "js '' ''"] a(1) by simp
  have 2: "splitNameAndTitle (js ''Mary-Jane Smith'') =
     \<lparr>nt_name = Some (js ''Mary-Jane Smith''), nt_title = None\<rparr>"
    using splitNameAndTitle_cases [of "js ''Mary-Jane Smith''"] a(2) unfolding t by simp
  have 3: "splitNameAndTitle (js ''Ann Lee '' @ [0x2013] @ js '' Pilot - Chief'') =
     \<lparr>nt_name = Some (js ''Ann Lee''), nt_title = Some (js ''Pilot - Chief'')\<rparr>"
    using splitNameAndTitle_cases [of "js ''Ann Lee '' @ [0x2013] @ js '' Pilot - Chief''"] a(3)
    unfolding p by simp
  show ?thesis using a 1 2 3 by simp
qed

section \<open>Properties of the Board Reducer\<close>

lemma map_of_objSet: "map_of (objSet acc k v) = (map_of acc)(k \<mapsto> v)"
  by (induction acc k v rule: objSet.induct) auto

lemma keys_objSet: "fst ` set (objSet acc k v) = insert k (fst ` set acc)"
  by (induction acc k v rule: objSet.induct) auto

lemma distinct_objSet: "distinct (map fst acc) \<Longrightarrow> distinct (map fst (objSet acc k v))"
proof (induction acc k v rule: objSet.induct)
  case (1 k v)
  show ?case by simp
next
  case (2 k' v' ps k v)
  show ?case
  proof (cases "k' = k")
    case True
    then show ?thesis using 2 by simp
  next
    case False
    have "k' \<notin> fst ` set (objSet ps k v)" using 2 False by (simp add: keys_objSet)
    then show ?thesis using 2 False by simp
  qed
qed

lemma foldl_assign_inv:
  "distinct (map fst (foldl assign [] rs)) \<and>
   (\<forall>k. map_of (foldl assign [] rs) k =
          (if k = js ''__proto__'' then None else lastWithId k rs))"
proof (induction rs rule: rev_induct)
  case Nil
  show ?case by (simp add: lastWithId_def)
next
  case (snoc x xs)
  let ?acc = "foldl assign [] xs"
  show ?case
  proof (cases "r_id x = js ''__proto__''")
    case True
    then have "foldl assign [] (xs @ [x]) = ?acc" by (simp add: assign_def)
    then show ?thesis using snoc True by (auto simp: lastWithId_def)
  next
    case False
    then have "foldl assign [] (xs @ [x]) = objSet ?acc (r_id x) x" by (simp add: assign_def)
    then show ?thesis using snoc False
      by (auto simp: lastWithId_def map_of_objSet distinct_objSet)
  qed
qed

lemma find_Some_mem: "find P xs = Some x \<Longrightarrow> P x \<and> x \<in> set xs"
  by (induction xs) (auto split: if_splits)

lemma lastWithId_id: "lastWithId k rs = Some r \<Longrightarrow> r_id r = k \<and> r \<in> set rs"
  unfolding lastWithId_def using find_Some_mem [of "\<lambda>r. r_id r = k" "rev rs" r] by simp

lemma acc_set:
  "set (foldl assign [] rs) =
     {(k, r). k \<noteq> js ''__proto__'' \<and> lastWithId k rs = Some r}"
proof -
  let ?acc = "foldl assign [] rs"
  have d: "distinct (map fst ?acc)" using foldl_assign_inv by blast
  have m: "\<And>k. map_of ?acc k = (if k = js ''__proto__'' then None else lastWithId k rs)"
    using foldl_assign_inv by blast
  have "\<And>k r. (k, r) \<in> set ?acc \<longleftrightarrow> map_of ?acc k = Some r"
    using d by simp
  then have "\<And>k r. (k, r) \<in> set ?acc \<longleftrightarrow>
                 k \<noteq> js ''__proto__'' \<and> lastWithId k rs = Some r"
    unfolding m by (simp split: if_splits)
  then show ?thesis by auto
qed

lemma acc_ids: "map r_id (map snd (foldl assign [] rs)) = map fst (foldl assign [] rs)"
proof -
  have "\<And>p. p \<in> set (foldl assign [] rs) \<Longrightarrow> r_id (snd p) = fst p"
    unfolding acc_set using lastWithId_id by auto
  then show ?thesis by simp
qed

lemma mset_objectValues: "mset (objectValues acc) = mset (map snd acc)"
proof -
  have "mset (filter (\<lambda>p. isArrayIndex (fst p)) acc) +
        mset (filter (\<lambda>p. \<not> isArrayIndex (fst p)) acc) = mset acc"
    by (induction acc) auto
  then have "mset (sort_key (\<lambda>p. digitsValue (fst p)) (filter (\<lambda>p. isArrayIndex (fst p)) acc) @
                   filter (\<lambda>p. \<not> isArrayIndex (fst p)) acc) = mset acc"
    by simp
  then have "image_mset snd
               (mset (sort_key (\<lambda>p. digitsValue (fst p)) (filter (\<lambda>p. isArrayIndex (fst p)) acc) @
                      filter (\<lambda>p. \<not> isArrayIndex (fst p)) acc)) = image_mset snd (mset acc)"
    by (rule arg_cong)
  then show ?thesis unfolding objectValues_def by (simp only: mset_map)
qed

lemma mset_insertBy: "mset (insertBy cmp x ys) = add_mset x (mset ys)"
  by (induction ys) auto

lemma mset_sortBy: "mset (sortBy cmp xs) = mset xs"
  unfolding sortBy_def by (induction xs) (auto simp: mset_insertBy)

lemma set_insertBy: "set (insertBy cmp x ys) = insert x (set ys)"
  by (induction ys) auto

lemma sorted_insertBy:
  assumes total: "\<And>a b. cmp a b \<le> 0 \<or> cmp b a \<le> 0"
      and trans: "\<And>a b c. cmp a b \<le> 0 \<Longrightarrow> cmp b c \<le> 0 \<Longrightarrow> cmp a c \<le> 0"
  shows "sorted_wrt (\<lambda>a b. cmp a b \<le> 0) ys \<Longrightarrow> sorted_wrt (\<lambda>a b. cmp a b \<le> 0) (insertBy cmp x ys)"
proof (induction ys)
  case Nil
  show ?case by simp
next
  case (Cons y ys)
  show ?case
  proof (cases "cmp x y \<le> 0")
    case True
    have "\<forall>z \<in> set ys. cmp x z \<le> 0" using True Cons.prems trans by auto
    then show ?thesis using True Cons.prems by simp
  next
    case False
    then have "cmp y x \<le> 0" using total by blast
    then show ?thesis using False Cons by (simp add: set_insertBy)
  qed
qed

lemma sorted_sortBy:
  assumes total: "\<And>a b. cmp a b \<le> 0 \<or> cmp b a \<le> 0"
      and trans: "\<And>a b c. cmp a b \<le> 0 \<Longrightarrow> cmp b c \<le> 0 \<Longrightarrow> cmp a c \<le> 0"
  shows "sorted_wrt (\<lambda>a b. cmp a b \<le> 0) (sortBy cmp xs)"
  unfolding sortBy_def
  by (induction xs) (simp_all add: sorted_insertBy [OF total trans])

lemma compareRecords_keyLeq: "compareRecords lc a b \<le> 0 \<longleftrightarrow> keyLeq lc a b"
  by (auto simp: compareRecords_def keyLeq_def Let_def)

text \<open>
  Apart from the key \<open>__proto__\<close> the reducer does what its comments say. For a
  \<open>localeCompare\<close> that is a total preorder, the output is ordered by status priority
  and then by name, it holds no id twice, and its records are exactly the last
  occurrences of the ids other than \<open>__proto__\<close>.
\<close>

lemma reduceBoard_sorted_dedup:
  assumes total: "\<And>a b. lc a b \<le> 0 \<or> lc b a \<le> 0"
      and trans: "\<And>a b c. lc a b \<le> 0 \<Longrightarrow> lc b c \<le> 0 \<Longrightarrow> lc a c \<le> 0"
  shows "sorted_wrt (keyLeq lc) (reduceBoard lc rs)"
    and "distinct (map r_id (reduceBoard lc rs))"
    and "set (reduceBoard lc rs) =
           {r. \<exists>k. k \<noteq> js ''__proto__'' \<and> lastWithId k rs = Some r}"
proof -
  let ?cmp = "compareRecords lc"
  have t: "\<And>a b. ?cmp a b \<le> 0 \<or> ?cmp b a \<le> 0"
    using total by (auto simp: compareRecords_keyLeq keyLeq_def)
  have tr: "?cmp a b \<le> 0 \<Longrightarrow> ?cmp b c \<le> 0 \<Longrightarrow> ?cmp a c \<le> 0" for a b c
  proof -
    define sa sb sc where "sa = statusOrder (r_status a)" and "sb = statusOrder (r_status b)"
      and "sc = statusOrder (r_status c)"
    define na nb nc where "na = orEmpty (r_name a)" and "nb = orEmpty (r_name b)"
      and "nc = orEmpty (r_name c)"
    assume "?cmp a b \<le> 0" and "?cmp b c \<le> 0"
    then have ab: "sa < sb \<or> (sa = sb \<and> lc na nb \<le> 0)"
      and bc: "sb < sc \<or> (sb = sc \<and> lc nb nc \<le> 0)"
      by (simp_all add: compareRecords_keyLeq keyLeq_def sa_def sb_def sc_def na_def nb_def nc_def)
    have "sa < sc \<or> (sa = sc \<and> lc na nc \<le> 0)"
    proof (cases "sa < sb")
      case True
      then show ?thesis using bc by linarith
    next
      case False
      then have e: "sa = sb" and l: "lc na nb \<le> 0" using ab by simp_all
      show ?thesis
      proof (cases "sb < sc")
        case True
        then show ?thesis using e by simp
      next
        case False
        then have "sb = sc" and "lc nb nc \<le> 0" using bc by simp_all
        then show ?thesis using e l trans by blast
      qed
    qed
    then show "?cmp a c \<le> 0"
      by (simp add: compareRecords_keyLeq keyLeq_def sa_def sb_def sc_def na_def nb_def nc_def)
  qed
  have "sorted_wrt (\<lambda>a b. ?cmp a b \<le> 0) (reduceBoard lc rs)"
    unfolding reduceBoard_def by (rule sorted_sortBy [OF t tr])
  then show "sorted_wrt (keyLeq lc) (reduceBoard lc rs)"
    by (simp add: compareRecords_keyLeq [abs_def] keyLeq_def [abs_def])
  have ms: "mset (reduceBoard lc rs) = mset (map snd (foldl assign [] rs))"
    unfolding reduceBoard_def by (simp add: mset_sortBy mset_objectValues)
  have "image_mset r_id (mset (reduceBoard lc rs)) =
        image_mset r_id (mset (map snd (foldl assign [] rs)))"
    using ms by (rule arg_cong)
  then have "mset (map r_id (reduceBoard lc rs)) = mset (map r_id (map snd (foldl assign [] rs)))"
    by (simp only: mset_map)
  then have mi: "mset (map r_id (reduceBoard lc rs)) = mset (map fst (foldl assign [] rs))"
    by (simp only: acc_ids)
  have "distinct (map fst (foldl assign [] rs))" using foldl_assign_inv [of rs] by blast
  then show "distinct (map r_id (reduceBoard lc rs))"
    using mset_eq_imp_distinct_iff [OF mi] by blast
  have "set (reduceBoard lc rs) = set (map snd (foldl assign [] rs))"
    using ms by (rule mset_eq_setD)
  then have "set (reduceBoard lc rs) = snd ` set (foldl assign [] rs)" by simp
  also have "\<dots> = {r. \<exists>k. k \<noteq> js ''__proto__'' \<and> lastWithId k rs = Some r}"
  proof (rule set_eqI)
    fix r
    have "r \<in> snd ` set (foldl assign [] rs) \<longleftrightarrow> (\<exists>k. (k, r) \<in> set (foldl assign [] rs))"
      by force
    also have "\<dots> \<longleftrightarrow> (\<exists>k. k \<noteq> js ''__proto__'' \<and> lastWithId k rs = Some r)"
      unfolding acc_set by simp
    finally show "r \<in> snd ` set (foldl assign [] rs) \<longleftrightarrow>
                  r \<in> {r. \<exists>k. k \<noteq> js ''__proto__'' \<and> lastWithId k rs = Some r}"
      by simp
  qed
  finally show "set (reduceBoard lc rs) =
           {r. \<exists>k. k \<noteq> js ''__proto__'' \<and> lastWithId k rs = Some r}" .
qed

text \<open>
  Claim C3: the reducer keeps, for each distinct id, exactly one record, the last
  occurrence. The code misses one id. A row whose identity cell reads \<open>__proto__\<close> is
  accepted by the Row Assembler, but the assignment \<open>acc[r.id] = r\<close> then sets the
  prototype of the accumulator instead of a property, and \<open>Object.values\<close> does not list
  the record: the board of that single row comes out empty, and next to another record
  the one with this id is lost.
\<close>

theorem reduceBoard_proto_dropped:
  "rowToRecord (\<lambda>s. None) (js ''T'') protoRow \<noteq> None \<and>
   r_id (the (rowToRecord (\<lambda>s. None) (js ''T'') protoRow)) = js ''__proto__'' \<and>
   items (fetchBoard unitCompare (\<lambda>s. None) (\<lambda>i. js ''T'') (js ''T'')
            (Loaded [protoRow]) initialCache) = [] \<and>
   reduceBoard unitCompare
     [sampleRecord ''a1'' In ''Ann'', sampleRecord ''__proto__'' Out ''Bob''] =
     [sampleRecord ''a1'' In ''Ann'']"
  by code_simp

section \<open>Properties of the Cell Decoder\<close>

subsection \<open>A text in normal form is left as it is\<close>

lemma replaceG_unchanged:
  "(\<And>j n. j < length s \<Longrightarrow> m (drop j s) = Some (Suc n) \<Longrightarrow> take (Suc n) (drop j s) = rep) \<Longrightarrow>
   replaceG m rep s = s"
proof (induction m rep s rule: replaceG.induct)
  case (1 m rep)
  show ?case by simp
next
  case (2 m rep c cs)
  note IH = "2.IH" and prems = "2.prems"
  have shift: "\<And>j. drop j cs = drop (Suc j) (c # cs)" by simp
  have tail: "replaceG m rep cs = cs" if "m (c # cs) = None \<or> m (c # cs) = Some 0"
  proof -
    have "\<And>j n. j < length cs \<Longrightarrow> m (drop j cs) = Some (Suc n) \<Longrightarrow>
             take (Suc n) (drop j cs) = rep"
      using prems [of "Suc _"] by simp
    then show ?thesis using that IH(1,2) by blast
  qed
  show ?case
  proof (cases "m (c # cs)")
    case None
    then show ?thesis using tail by simp
  next
    case (Some k)
    show ?thesis
    proof (cases k)
      case 0
      then show ?thesis using tail Some by simp
    next
      case (Suc n)
      have hit: "m (c # cs) = Some (Suc n)" using Some Suc by simp
      have r: "take (Suc n) (c # cs) = rep" using prems [of 0 n] hit by simp
      have "\<And>j n'. j < length (drop n cs) \<Longrightarrow> m (drop j (drop n cs)) = Some (Suc n') \<Longrightarrow>
               take (Suc n') (drop j (drop n cs)) = rep"
      proof -
        fix j n' assume j: "j < length (drop n cs)" and h: "m (drop j (drop n cs)) = Some (Suc n')"
        have e: "drop j (drop n cs) = drop (Suc (j + n)) (c # cs)" by simp
        have "Suc (j + n) < length (c # cs)" using j by simp
        then show "take (Suc n') (drop j (drop n cs)) = rep"
          using prems [of "Suc (j + n)" n'] h unfolding e by blast
      qed
      then have "replaceG m rep (drop n cs) = drop n cs" using IH(3) [OF hit] by blast
      then have "replaceG m rep (c # cs) = take (Suc n) (c # cs) @ drop (Suc n) (c # cs)"
        using hit r by simp
      then show ?thesis by (simp only: append_take_drop_id)
    qed
  qed
qed

lemma testLit_drop: "\<not> testLit p s \<Longrightarrow> take (length p) (drop j s) \<noteq> p"
proof (induction s arbitrary: j)
  case Nil
  then show ?case by auto
next
  case (Cons c cs)
  show ?case
  proof (cases j)
    case 0
    then show ?thesis using Cons.prems by simp
  next
    case (Suc i)
    then show ?thesis using Cons by simp
  qed
qed

lemma lit_no_match: "\<not> testLit p s \<Longrightarrow> lit p (drop j s) = None"
  using testLit_drop [of p s j] by (simp add: lit_def)

lemma replaceG_lit_unchanged: "\<not> testLit p s \<Longrightarrow> replaceG (lit p) rep s = s"
  by (rule replaceG_unchanged) (simp add: lit_no_match)

lemma testLit_single: "testLit [c] s \<longleftrightarrow> c \<in> set s"
  by (induction s) auto

lemma replaceG_nbsp_unchanged:
  assumes "NBSP \<notin> set s" and "\<not> testLit (js ''&nbsp;'') s"
  shows "replaceG nbspRe [SP] s = s"
proof (rule replaceG_unchanged)
  fix j n
  have "lit [NBSP] (drop j s) = None" using assms(1) by (simp add: lit_no_match testLit_single)
  moreover have "lit (js ''&nbsp;'') (drop j s) = None" using assms(2) by (rule lit_no_match)
  ultimately have "nbspRe (drop j s) = None" by (simp add: nbspRe_def)
  moreover assume "nbspRe (drop j s) = Some (Suc n)"
  ultimately show "take (Suc n) (drop j s) = [SP]" by simp
qed

lemma successively_drop: "successively P s \<Longrightarrow> successively P (drop j s)"
  using successively_append_iff [of P "take j s" "drop j s"] by simp

lemma replaceG_horiz_unchanged:
  assumes tab: "TAB \<notin> set s" and dbl: "successively (\<lambda>a b. \<not> (a = SP \<and> b = SP)) s"
  shows "replaceG horizRe [SP] s = s"
proof (rule replaceG_unchanged)
  fix j n
  assume j: "j < length s" and h: "horizRe (drop j s) = Some (Suc n)"
  obtain c cs where u: "drop j s = c # cs" using j by (cases "drop j s") auto
  have run: "take (Suc n) (drop j s) = takeWhile isHoriz (drop j s)" using h by (rule horizRe_take)
  have "c \<in> set s" using u by (metis in_set_dropD list.set_intros(1))
  then have nt: "c \<noteq> TAB" using tab by auto
  have hc: "isHoriz c" using h u by (auto simp: horizRe_def Let_def split: if_splits)
  then have c: "c = SP" using nt by (simp add: isHoriz_def)
  have "\<not> isHoriz (hd cs)" if ne: "cs \<noteq> []"
  proof -
    obtain d r where cs: "cs = d # r" using ne by (cases cs) auto
    have "d \<in> set s" using u cs by (metis in_set_dropD list.set_intros(1) list.set_intros(2))
    then have "d \<noteq> TAB" using tab by auto
    moreover have "successively (\<lambda>a b. \<not> (a = SP \<and> b = SP)) (c # d # r)"
      using successively_drop [OF dbl, of j] u cs by simp
    then have "d \<noteq> SP" using c by (simp add: successively_Cons)
    ultimately show ?thesis using cs by (simp add: isHoriz_def)
  qed
  then have "takeWhile isHoriz (c # cs) = [c]" using hc by (cases cs) auto
  then show "take (Suc n) (drop j s) = [SP]" using run u c by simp
qed

lemma replaceG_wsNl_unchanged:
  assumes "successively (\<lambda>a b. \<not> (isWhite a \<and> b = NL)) s"
  shows "replaceG wsNlRe [NL] s = s"
proof (rule replaceG_unchanged)
  fix j n
  assume j: "j < length s" and h: "wsNlRe (drop j s) = Some (Suc n)"
  let ?u = "drop j s"
  have n2: "2 \<le> Suc n" and le: "Suc n \<le> length (takeWhile isWhite ?u)" and nl: "?u ! (Suc n - 1) = NL"
    using wsNlRe_take [OF h] by simp_all
  obtain i where i: "n = Suc i" using n2 by (cases n) auto
  have "i < length (takeWhile isWhite ?u)" using le i by simp
  then have w: "isWhite (?u ! i)"
    by (metis nth_mem set_takeWhileD takeWhile_nth)
  have "Suc i < length ?u" using le i length_takeWhile_le [of isWhite ?u] by linarith
  then have "\<not> (isWhite (?u ! i) \<and> ?u ! Suc i = NL)"
    using successively_nth [OF successively_drop [OF assms, of j], of i] by simp
  then have False using w nl i by simp
  then show "take (Suc n) (drop j s) = [NL]" ..
qed

lemma replaceG_nlWs_unchanged:
  assumes "successively (\<lambda>a b. \<not> (a = NL \<and> isWhite b)) s"
  shows "replaceG nlWsRe [NL] s = s"
proof (rule replaceG_unchanged)
  fix j n
  assume j: "j < length s" and h: "nlWsRe (drop j s) = Some (Suc n)"
  obtain c cs where u: "drop j s = c # cs" using j by (cases "drop j s") auto
  have c: "c = NL" and pos: "takeWhile isWhite cs \<noteq> []"
    using h u by (auto simp: nlWsRe_def Let_def split: if_splits)
  then obtain d r where cs: "cs = d # r" and d: "isWhite d"
    by (cases cs) (auto split: if_splits)
  have "successively (\<lambda>a b. \<not> (a = NL \<and> isWhite b)) (c # d # r)"
    using successively_drop [OF assms, of j] u cs by simp
  then have False using c d by (simp add: successively_Cons)
  then show "take (Suc n) (drop j s) = [NL]" ..
qed

lemma trim_unchanged:
  assumes "s = [] \<or> (\<not> isWhite (hd s) \<and> \<not> isWhite (last s))"
  shows "trim s = s"
proof (cases "s = []")
  case True
  then show ?thesis by (simp add: trim_def)
next
  case False
  then have a: "dropWhile isWhite s = s" using assms by (simp add: dropWhile_eq_self_iff)
  have "dropWhile isWhite (rev s) = rev s"
    using assms False by (simp add: dropWhile_eq_self_iff hd_rev)
  then show ?thesis using a by (simp add: trim_def)
qed

lemma decode_fixed:
  assumes "NBSP \<notin> set s" and "TAB \<notin> set s" and "\<not> hasEntity s"
      and "successively (\<lambda>a b. \<not> (a = SP \<and> b = SP)) s"
      and "successively (\<lambda>a b. \<not> (isWhite a \<and> b = NL)) s"
      and "successively (\<lambda>a b. \<not> (a = NL \<and> isWhite b)) s"
      and "s = [] \<or> (\<not> isWhite (hd s) \<and> \<not> isWhite (last s))"
  shows "decode s = s"
  using assms unfolding decode_def hasEntity_def
  by (simp add: replaceG_nbsp_unchanged replaceG_lit_unchanged replaceG_horiz_unchanged
      replaceG_wsNl_unchanged replaceG_nlWs_unchanged trim_unchanged)

subsection \<open>Every decoded text is in normal form\<close>

lemma set_replaceG: "set (replaceG m rep s) \<subseteq> set s \<union> set rep"
proof (induction m rep s rule: replaceG.induct)
  case (1 m rep)
  show ?case by simp
next
  case (2 m rep c cs)
  show ?case
  proof (cases "m (c # cs)")
    case None
    then show ?thesis using 2 by auto
  next
    case (Some k)
    show ?thesis
    proof (cases k)
      case 0
      then show ?thesis using 2 Some by auto
    next
      case (Suc n)
      then have "set (replaceG m rep (drop n cs)) \<subseteq> set (drop n cs) \<union> set rep"
        using 2 Some by simp
      moreover have "set (drop n cs) \<subseteq> set cs" by (rule set_drop_subset)
      ultimately show ?thesis using Some Suc by auto
    qed
  qed
qed

lemma replaceG_removes:
  assumes "\<And>u. u \<noteq> [] \<Longrightarrow> m u = None \<or> m u = Some 0 \<Longrightarrow> hd u \<noteq> x" and "x \<notin> set rep"
  shows "x \<notin> set (replaceG m rep s)"
  using assms
proof (induction m rep s rule: replaceG.induct)
  case (1 m rep)
  show ?case by simp
next
  case (2 m rep c cs)
  note IH = "2.IH" and prems = "2.prems"
  show ?case
  proof (cases "m (c # cs)")
    case None
    then have "c \<noteq> x" using prems(1) [of "c # cs"] by simp
    then show ?thesis using None IH(1) prems by simp
  next
    case (Some k)
    show ?thesis
    proof (cases k)
      case 0
      then have "c \<noteq> x" using prems(1) [of "c # cs"] Some by simp
      then show ?thesis using Some 0 IH(2) prems by simp
    next
      case (Suc n)
      then have "x \<notin> set (replaceG m rep (drop n cs))" using IH(3) Some prems by simp
      then show ?thesis using Some Suc prems(2) by simp
    qed
  qed
qed

lemma nbspRe_miss: "u \<noteq> [] \<Longrightarrow> nbspRe u = None \<or> nbspRe u = Some 0 \<Longrightarrow> hd u \<noteq> NBSP"
  by (cases u) (auto simp: nbspRe_def lit_def split: option.splits if_splits)

lemma horizRe_miss: "u \<noteq> [] \<Longrightarrow> horizRe u = None \<or> horizRe u = Some 0 \<Longrightarrow> hd u \<noteq> TAB"
  by (cases u) (auto simp: horizRe_def isHoriz_def Let_def split: if_splits)

lemma set_trim: "set (trim s) \<subseteq> set s"
proof -
  have "set (trim s) = set (dropWhile isWhite (rev (dropWhile isWhite s)))"
    by (simp add: trim_def)
  also have "\<dots> \<subseteq> set (rev (dropWhile isWhite s))" by (auto dest: set_dropWhileD)
  also have "\<dots> \<subseteq> set s" by (auto dest: set_dropWhileD)
  finally show ?thesis .
qed

lemma decode_no_nbsp: "NBSP \<notin> set (decode s)"
proof -
  have 1: "NBSP \<notin> set (replaceG nbspRe [SP] s)"
  proof (rule replaceG_removes)
    fix u :: jsstring
    assume "u \<noteq> []" and "nbspRe u = None \<or> nbspRe u = Some 0"
    then show "hd u \<noteq> NBSP" by (rule nbspRe_miss)
  next
    show "NBSP \<notin> set [SP]" by (simp add: NBSP_def SP_def)
  qed
  have keep: "NBSP \<notin> set (replaceG m rep t)" if "NBSP \<notin> set t" "NBSP \<notin> set rep" for m rep t
    using set_replaceG [of m rep t] that by blast
  have lits: "NBSP \<notin> set (js ''&'')" "NBSP \<notin> set (js ''<'')" "NBSP \<notin> set (js ''>'')"
    "NBSP \<notin> set [SP]" "NBSP \<notin> set [NL]"
    by (simp_all add: js_def NBSP_def SP_def NL_def)
  note a = keep [OF keep [OF keep [OF keep [OF keep [OF keep [OF 1
    lits(1)] lits(2)] lits(3)] lits(4)] lits(5)] lits(5)]
  show ?thesis
    unfolding decode_def using set_trim a by blast
qed

lemma decode_no_tab: "TAB \<notin> set (decode s)"
proof -
  have 1: "TAB \<notin> set (replaceG horizRe [SP] t)" for t
  proof (rule replaceG_removes)
    fix u :: jsstring
    assume "u \<noteq> []" and "horizRe u = None \<or> horizRe u = Some 0"
    then show "hd u \<noteq> TAB" by (rule horizRe_miss)
  next
    show "TAB \<notin> set [SP]" by (simp add: TAB_def SP_def)
  qed
  have keep: "TAB \<notin> set (replaceG m rep t)" if "TAB \<notin> set t" "TAB \<notin> set rep" for m rep t
    using set_replaceG [of m rep t] that by blast
  have lits: "TAB \<notin> set [NL]" by (simp add: TAB_def NL_def)
  note a = keep [OF keep [OF 1 lits] lits]
  show ?thesis
    unfolding decode_def using set_trim a by blast
qed

lemma replaceG_horiz_Cons:
  "replaceG horizRe [SP] (c # cs) =
     (if isHoriz c then SP # replaceG horizRe [SP] (dropWhile isHoriz cs)
      else c # replaceG horizRe [SP] cs)"
  by (simp add: horizRe_def dropWhile_eq_drop)

lemma replaceG_nlWs_Cons:
  "replaceG nlWsRe [NL] (c # cs) =
     (if c = NL \<and> cs \<noteq> [] \<and> isWhite (hd cs)
      then NL # replaceG nlWsRe [NL] (dropWhile isWhite cs)
      else c # replaceG nlWsRe [NL] cs)"
proof (cases "c = NL \<and> cs \<noteq> [] \<and> isWhite (hd cs)")
  case True
  then have ne: "takeWhile isWhite cs \<noteq> []" by (simp add: takeWhile_eq_Nil_iff)
  then obtain k where k: "length (takeWhile isWhite cs) = Suc k"
    by (cases "takeWhile isWhite cs") auto
  then have "nlWsRe (c # cs) = Some (Suc (Suc k))" using True ne by (simp add: nlWsRe_def)
  moreover have "drop (Suc k) cs = dropWhile isWhite cs" using k by (simp add: dropWhile_eq_drop)
  ultimately show ?thesis using True by simp
next
  case False
  then have "takeWhile isWhite cs = [] \<or> c \<noteq> NL" by (auto simp: takeWhile_eq_Nil_iff)
  then have "nlWsRe (c # cs) = None" by (auto simp: nlWsRe_def)
  then show ?thesis using False by auto
qed

lemma replaceG_wsNl_Cons:
  "replaceG wsNlRe [NL] (c # cs) =
     (case wsNlRe (c # cs) of
        None \<Rightarrow> c # replaceG wsNlRe [NL] cs
      | Some n \<Rightarrow> NL # replaceG wsNlRe [NL] (drop n (c # cs)))"
proof (cases "wsNlRe (c # cs)")
  case None
  then show ?thesis by simp
next
  case (Some n)
  then have "2 \<le> n" by (rule wsNlRe_take)
  then obtain k where "n = Suc k" by (cases n) auto
  then show ?thesis using Some by simp
qed

lemma replaceG_single_Nil: "replaceG m [r] s = [] \<longleftrightarrow> s = []"
  by (cases s) (auto split: option.splits nat.splits)

lemma hd_replaceG_single:
  "s \<noteq> [] \<Longrightarrow> hd (replaceG m [r] s) = r \<or> hd (replaceG m [r] s) = hd s"
  by (cases s) (auto split: option.splits nat.splits)

lemma successively_replaceG_neutral:
  assumes "\<And>a. Q a r" and "\<And>b. Q r b"
  shows "successively Q s \<Longrightarrow> successively Q (replaceG m [r] s)"
proof (induction m "[r]" s rule: replaceG.induct)
  case (1 m)
  show ?case by simp
next
  case (2 m c cs)
  note IH = "2.hyps" and prems = "2.prems"
  have tail: "successively Q (c # replaceG m [r] cs)" if "successively Q (replaceG m [r] cs)"
  proof (cases cs)
    case Nil
    then show ?thesis by simp
  next
    case (Cons d ds)
    then have "Q c d" using prems by (simp add: successively_Cons)
    then have "Q c (hd (replaceG m [r] cs))"
      using hd_replaceG_single [of cs m r] Cons assms(1) by auto
    then show ?thesis using that by (simp add: successively_Cons)
  qed
  have sc: "successively Q cs" using prems by (auto simp: successively_Cons)
  show ?case
  proof (cases "m (c # cs)")
    case None
    then show ?thesis using tail IH(1) sc by simp
  next
    case (Some k)
    show ?thesis
    proof (cases k)
      case 0
      then show ?thesis using tail IH(2) sc Some by simp
    next
      case (Suc n)
      have "successively Q (drop n cs)" using sc by (rule successively_drop)
      then have "successively Q (replaceG m [r] (drop n cs))" using IH(3) Some Suc by simp
      then show ?thesis using Some Suc assms(2) by (simp add: successively_Cons)
    qed
  qed
qed

lemma successively_horiz:
  "successively (\<lambda>a b. \<not> (a = SP \<and> b = SP)) (replaceG horizRe [SP] s)"
proof (induction s rule: length_induct)
  case (1 s)
  show ?case
  proof (cases s)
    case Nil
    then show ?thesis by simp
  next
    case (Cons c cs)
    show ?thesis
    proof (cases "isHoriz c")
      case True
      let ?u = "dropWhile isHoriz cs"
      have "length ?u < length s" using Cons length_dropWhile_le [of isHoriz cs] by simp
      then have IH: "successively (\<lambda>a b. \<not> (a = SP \<and> b = SP)) (replaceG horizRe [SP] ?u)"
        using 1 by blast
      have "replaceG horizRe [SP] ?u = [] \<or> hd (replaceG horizRe [SP] ?u) \<noteq> SP"
      proof (cases ?u)
        case Nil
        show ?thesis unfolding Nil by simp
      next
        case (Cons d r)
        then have "\<not> isHoriz d" using hd_dropWhile [of isHoriz cs] by (metis list.sel(1) list.simps(3))
        then show ?thesis unfolding Cons replaceG_horiz_Cons by (simp add: isHoriz_def)
      qed
      then show ?thesis using IH True unfolding Cons replaceG_horiz_Cons
        by (auto simp: successively_Cons)
    next
      case False
      then have "c \<noteq> SP" by (simp add: isHoriz_def)
      moreover have "successively (\<lambda>a b. \<not> (a = SP \<and> b = SP)) (replaceG horizRe [SP] cs)"
        using 1 Cons by simp
      ultimately show ?thesis using False unfolding Cons replaceG_horiz_Cons
        by (auto simp: successively_Cons)
    qed
  qed
qed

lemma hd_replaceG_nlWs: "hd (replaceG nlWsRe [NL] s) = hd s"
proof (cases s)
  case Nil
  then show ?thesis by simp
next
  case (Cons c cs)
  show ?thesis unfolding Cons replaceG_nlWs_Cons by simp
qed

lemma successively_nlWs:
  "successively (\<lambda>a b. \<not> (a = NL \<and> isWhite b)) (replaceG nlWsRe [NL] s)"
proof (induction s rule: length_induct)
  case (1 s)
  show ?case
  proof (cases s)
    case Nil
    then show ?thesis by simp
  next
    case (Cons c cs)
    show ?thesis
    proof (cases "c = NL \<and> cs \<noteq> [] \<and> isWhite (hd cs)")
      case True
      let ?u = "dropWhile isWhite cs"
      have "length ?u < length s" using Cons length_dropWhile_le [of isWhite cs] by simp
      then have IH: "successively (\<lambda>a b. \<not> (a = NL \<and> isWhite b)) (replaceG nlWsRe [NL] ?u)"
        using 1 by blast
      have "?u = [] \<or> \<not> isWhite (hd ?u)" using hd_dropWhile [of isWhite cs] by blast
      then have "replaceG nlWsRe [NL] ?u = [] \<or> \<not> isWhite (hd (replaceG nlWsRe [NL] ?u))"
        unfolding hd_replaceG_nlWs replaceG_single_Nil .
      then show ?thesis using IH True unfolding Cons replaceG_nlWs_Cons
        by (auto simp: successively_Cons)
    next
      case False
      have IH: "successively (\<lambda>a b. \<not> (a = NL \<and> isWhite b)) (replaceG nlWsRe [NL] cs)"
        using 1 Cons by simp
      have "replaceG nlWsRe [NL] cs = [] \<or> \<not> (c = NL \<and> isWhite (hd (replaceG nlWsRe [NL] cs)))"
        unfolding hd_replaceG_nlWs replaceG_single_Nil using False by blast
      then show ?thesis using IH False unfolding Cons replaceG_nlWs_Cons
        by (auto simp: successively_Cons)
    qed
  qed
qed

lemma successively_nlWs_keeps:
  "successively (\<lambda>a b. \<not> (isWhite a \<and> b = NL)) s \<Longrightarrow>
   successively (\<lambda>a b. \<not> (isWhite a \<and> b = NL)) (replaceG nlWsRe [NL] s)"
proof (induction s rule: length_induct)
  case (1 s)
  note prem = "1.prems"
  show ?case
  proof (cases s)
    case Nil
    then show ?thesis by simp
  next
    case (Cons c cs)
    have sc: "successively (\<lambda>a b. \<not> (isWhite a \<and> b = NL)) cs"
      using prem Cons by (auto simp: successively_Cons)
    show ?thesis
    proof (cases "c = NL \<and> cs \<noteq> [] \<and> isWhite (hd cs)")
      case True
      let ?u = "dropWhile isWhite cs"
      have "length ?u < length s" using Cons length_dropWhile_le [of isWhite cs] by simp
      moreover have "successively (\<lambda>a b. \<not> (isWhite a \<and> b = NL)) ?u"
        using sc successively_drop [of _ cs "length (takeWhile isWhite cs)"]
        by (simp add: dropWhile_eq_drop)
      ultimately have IH: "successively (\<lambda>a b. \<not> (isWhite a \<and> b = NL)) (replaceG nlWsRe [NL] ?u)"
        using 1 by blast
      have "?u = [] \<or> \<not> isWhite (hd ?u)" using hd_dropWhile [of isWhite cs] by blast
      then have "replaceG nlWsRe [NL] ?u = [] \<or> hd (replaceG nlWsRe [NL] ?u) \<noteq> NL"
        unfolding hd_replaceG_nlWs replaceG_single_Nil using white_NL by metis
      then show ?thesis using IH True unfolding Cons replaceG_nlWs_Cons
        by (auto simp: successively_Cons)
    next
      case False
      have IH: "successively (\<lambda>a b. \<not> (isWhite a \<and> b = NL)) (replaceG nlWsRe [NL] cs)"
        using 1 Cons sc by simp
      have "cs = [] \<or> \<not> (isWhite c \<and> hd cs = NL)"
        using prem Cons by (auto simp: successively_Cons)
      then have "replaceG nlWsRe [NL] cs = [] \<or>
                 \<not> (isWhite c \<and> hd (replaceG nlWsRe [NL] cs) = NL)"
        unfolding hd_replaceG_nlWs replaceG_single_Nil .
      then show ?thesis using IH False unfolding Cons replaceG_nlWs_Cons
        by (auto simp: successively_Cons)
    qed
  qed
qed

lemma backtrackNL_max:
  "backtrackNL k u = Some n \<Longrightarrow> n \<le> i \<Longrightarrow> i \<le> k \<Longrightarrow> i < length u \<Longrightarrow> u ! i \<noteq> NL"
proof (induction k u rule: backtrackNL.induct)
  case (1 s)
  then show ?case by simp
next
  case (2 k s)
  show ?case
  proof (cases "Suc k < length s \<and> s ! Suc k = NL")
    case True
    then have "n = Suc (Suc k)" using "2.prems"(1) by simp
    then show ?thesis using "2.prems" by simp
  next
    case False
    then have b: "backtrackNL k s = Some n" using "2.prems"(1) by auto
    show ?thesis
    proof (cases "i = Suc k")
      case True
      then show ?thesis using False "2.prems" by auto
    next
      case False
      then have "i \<le> k" using "2.prems" by simp
      then show ?thesis using "2.IH" \<open>\<not> (Suc k < length s \<and> s ! Suc k = NL)\<close> b "2.prems" by blast
    qed
  qed
qed

lemma backtrackNL_None:
  "backtrackNL k u = None \<Longrightarrow> 1 \<le> i \<Longrightarrow> i \<le> k \<Longrightarrow> i < length u \<Longrightarrow> u ! i \<noteq> NL"
proof (induction k u rule: backtrackNL.induct)
  case (1 s)
  then show ?case by simp
next
  case (2 k s)
  have f: "\<not> (Suc k < length s \<and> s ! Suc k = NL)" and b: "backtrackNL k s = None"
    using "2.prems"(1) by (auto split: if_splits)
  show ?case
  proof (cases "i = Suc k")
    case True
    then show ?thesis using f "2.prems" by auto
  next
    case False
    then have "i \<le> k" using "2.prems" by simp
    then show ?thesis using "2.IH" f b "2.prems" by blast
  qed
qed

lemma wsNlRe_max:
  "wsNlRe u = Some n \<Longrightarrow> n \<le> i \<Longrightarrow> i < length (takeWhile isWhite u) \<Longrightarrow> u ! i \<noteq> NL"
  using backtrackNL_max [of "length (takeWhile isWhite u)" u n i]
    length_takeWhile_le [of isWhite u]
  by (simp add: wsNlRe_def)

lemma wsNlRe_None:
  "wsNlRe u = None \<Longrightarrow> 1 \<le> i \<Longrightarrow> i < length (takeWhile isWhite u) \<Longrightarrow> u ! i \<noteq> NL"
  using backtrackNL_None [of "length (takeWhile isWhite u)" u i]
    length_takeWhile_le [of isWhite u]
  by (simp add: wsNlRe_def)

lemma takeWhile_drop:
  assumes "n \<le> length (takeWhile P u)"
  shows "takeWhile P (drop n u) = drop n (takeWhile P u)"
proof -
  have "drop n (takeWhile P u @ dropWhile P u) =
          drop n (takeWhile P u) @ drop (n - length (takeWhile P u)) (dropWhile P u)"
    by (rule drop_append)
  then have "drop n u = drop n (takeWhile P u) @ dropWhile P u" using assms by simp
  then have "takeWhile P (drop n u) = takeWhile P (drop n (takeWhile P u) @ dropWhile P u)"
    by simp
  also have "\<dots> = drop n (takeWhile P u) @ takeWhile P (dropWhile P u)"
    by (rule takeWhile_append2) (auto dest: in_set_dropD set_takeWhileD)
  also have "takeWhile P (dropWhile P u) = []"
    using hd_dropWhile [of P u] by (auto simp: takeWhile_eq_Nil_iff)
  finally show ?thesis by simp
qed

lemma wsNlRe_rest:
  assumes h: "wsNlRe u = Some n"
  shows "wsNlRe (drop n u) = None" and "drop n u = [] \<or> hd (drop n u) \<noteq> NL"
proof -
  let ?L = "length (takeWhile isWhite u)"
  have le: "n \<le> ?L" using h by (rule wsNlRe_take)
  have run': "takeWhile isWhite (drop n u) = drop n (takeWhile isWhite u)"
    using le by (rule takeWhile_drop)
  show "wsNlRe (drop n u) = None"
  proof (cases "wsNlRe (drop n u)")
    case None
    then show ?thesis .
  next
    case (Some n')
    have a: "2 \<le> n'" and b: "n' \<le> length (takeWhile isWhite (drop n u))"
      and c: "drop n u ! (n' - 1) = NL"
      using wsNlRe_take [OF Some] by simp_all
    have b': "n + n' \<le> ?L" using b le unfolding run' by simp
    have "n + (n' - 1) \<le> length u" using b' a length_takeWhile_le [of isWhite u] by linarith
    then have "u ! (n + (n' - 1)) = NL" using c by simp
    moreover have "u ! (n + (n' - 1)) \<noteq> NL"
      using wsNlRe_max [OF h, of "n + (n' - 1)"] a b' by simp
    ultimately show ?thesis by simp
  qed
  show "drop n u = [] \<or> hd (drop n u) \<noteq> NL"
  proof (cases "n < length u")
    case False
    then show ?thesis by simp
  next
    case True
    then have hd: "hd (drop n u) = u ! n" by (simp add: hd_drop_conv_nth)
    show ?thesis
    proof (cases "n < ?L")
      case True
      then show ?thesis using wsNlRe_max [OF h, of n] hd by simp
    next
      case False
      then have "n = ?L" using le by simp
      then have "\<not> isWhite (u ! n)" using True nth_length_takeWhile [of isWhite u] by simp
      then show ?thesis using hd white_NL by auto
    qed
  qed
qed

lemma wsNlRe_extend:
  assumes w: "isWhite c" and cs: "cs \<noteq> []"
      and nl: "hd cs = NL \<or> wsNlRe cs \<noteq> None"
  shows "wsNlRe (c # cs) \<noteq> None"
proof
  assume none: "wsNlRe (c # cs) = None"
  have run: "takeWhile isWhite (c # cs) = c # takeWhile isWhite cs" using w by simp
  from nl show False
  proof
    assume "hd cs = NL"
    then obtain r where r: "cs = NL # r" using cs by (cases cs) auto
    have "(c # cs) ! 1 \<noteq> NL"
      using wsNlRe_None [OF none, of 1] run r white_NL by simp
    then show False using r by simp
  next
    assume "wsNlRe cs \<noteq> None"
    then obtain n where n: "wsNlRe cs = Some n" by auto
    have a: "2 \<le> n" and b: "n \<le> length (takeWhile isWhite cs)" and c: "cs ! (n - 1) = NL"
      using wsNlRe_take [OF n] by simp_all
    have "(c # cs) ! n \<noteq> NL" using wsNlRe_None [OF none, of n] run a b by simp
    moreover have "(c # cs) ! n = cs ! (n - 1)" using a by (cases n) auto
    ultimately show False using c by simp
  qed
qed

lemma hd_replaceG_wsNl:
  "s \<noteq> [] \<Longrightarrow> hd (replaceG wsNlRe [NL] s) = (if wsNlRe s = None then hd s else NL)"
proof (cases s)
  case Nil
  assume "s \<noteq> []"
  then show ?thesis using Nil by simp
next
  case (Cons c cs)
  show ?thesis unfolding Cons replaceG_wsNl_Cons by (simp split: option.splits)
qed

lemma successively_wsNl:
  "successively (\<lambda>a b. \<not> (isWhite a \<and> b = NL)) (replaceG wsNlRe [NL] s)"
proof (induction s rule: length_induct)
  case (1 s)
  show ?case
  proof (cases s)
    case Nil
    then show ?thesis by simp
  next
    case (Cons c cs)
    show ?thesis
    proof (cases "wsNlRe (c # cs)")
      case None
      have IH: "successively (\<lambda>a b. \<not> (isWhite a \<and> b = NL)) (replaceG wsNlRe [NL] cs)"
        using 1 Cons by simp
      have "cs = [] \<or> \<not> (isWhite c \<and> hd (replaceG wsNlRe [NL] cs) = NL)"
      proof (cases "cs = [] \<or> \<not> isWhite c")
        case True
        then show ?thesis by blast
      next
        case False
        then have "\<not> (hd cs = NL \<or> wsNlRe cs \<noteq> None)"
          using wsNlRe_extend [of c cs] None by blast
        then have "hd (replaceG wsNlRe [NL] cs) \<noteq> NL"
          using False by (simp add: hd_replaceG_wsNl)
        then show ?thesis by blast
      qed
      then have "replaceG wsNlRe [NL] cs = [] \<or>
                 \<not> (isWhite c \<and> hd (replaceG wsNlRe [NL] cs) = NL)"
        unfolding replaceG_single_Nil .
      then show ?thesis using IH None unfolding Cons replaceG_wsNl_Cons
        by (auto simp: successively_Cons)
    next
      case (Some n)
      let ?u = "drop n (c # cs)"
      have "2 \<le> n" using Some by (rule wsNlRe_take)
      then have "length ?u < length s" using Cons by simp
      then have IH: "successively (\<lambda>a b. \<not> (isWhite a \<and> b = NL)) (replaceG wsNlRe [NL] ?u)"
        using 1 by blast
      have "?u = [] \<or> hd (replaceG wsNlRe [NL] ?u) \<noteq> NL"
        using wsNlRe_rest [OF Some] by (auto simp: hd_replaceG_wsNl)
      then have "replaceG wsNlRe [NL] ?u = [] \<or> hd (replaceG wsNlRe [NL] ?u) \<noteq> NL"
        unfolding replaceG_single_Nil .
      then show ?thesis using IH Some unfolding Cons replaceG_wsNl_Cons
        by (auto simp: successively_Cons)
    qed
  qed
qed

lemma successively_dropWhile: "successively P s \<Longrightarrow> successively P (dropWhile W s)"
  using successively_drop [of P s "length (takeWhile W s)"] by (simp add: dropWhile_eq_drop)

lemma successively_trim: "successively P s \<Longrightarrow> successively P (trim s)"
proof -
  assume "successively P s"
  then have "successively P (dropWhile isWhite s)" by (rule successively_dropWhile)
  then have "successively (\<lambda>x y. P y x) (rev (dropWhile isWhite s))" by simp
  then have "successively (\<lambda>x y. P y x) (dropWhile isWhite (rev (dropWhile isWhite s)))"
    by (rule successively_dropWhile)
  then show ?thesis by (simp add: trim_def)
qed

lemma trim_ends: "trim s = [] \<or> (\<not> isWhite (hd (trim s)) \<and> \<not> isWhite (last (trim s)))"
proof (cases "trim s = []")
  case True
  then show ?thesis ..
next
  case False
  let ?v = "dropWhile isWhite s"
  let ?w = "dropWhile isWhite (rev ?v)"
  have t: "trim s = rev ?w" by (simp add: trim_def)
  have w: "?w \<noteq> []" using False t by simp
  then have "\<not> isWhite (hd ?w)" by (rule hd_dropWhile)
  then have l: "\<not> isWhite (last (trim s))" using t w by (simp add: last_rev)
  have "rev ?v = takeWhile isWhite (rev ?v) @ ?w" by simp
  then have "?v = rev ?w @ rev (takeWhile isWhite (rev ?v))" by (metis rev_append rev_rev_ident)
  then have "hd ?v = hd (rev ?w)" using w by (metis hd_append2 rev_is_Nil_conv)
  moreover have "?v \<noteq> []"
  proof
    assume e: "?v = []"
    have "?w = []" unfolding e by simp
    then show False using w by contradiction
  qed
  then have "\<not> isWhite (hd ?v)" by (rule hd_dropWhile)
  ultimately have "\<not> isWhite (hd (trim s))" using t by simp
  then show ?thesis using l by blast
qed

lemma decode_normal:
  "successively (\<lambda>a b. \<not> (a = SP \<and> b = SP)) (decode s)"
  "successively (\<lambda>a b. \<not> (isWhite a \<and> b = NL)) (decode s)"
  "successively (\<lambda>a b. \<not> (a = NL \<and> isWhite b)) (decode s)"
  "decode s = [] \<or> (\<not> isWhite (hd (decode s)) \<and> \<not> isWhite (last (decode s)))"
proof -
  have ne: "NL \<noteq> SP" by (simp add: NL_def SP_def)
  show "successively (\<lambda>a b. \<not> (a = SP \<and> b = SP)) (decode s)"
    unfolding decode_def
    by (intro successively_trim successively_replaceG_neutral successively_horiz)
       (simp_all add: ne)
  show "successively (\<lambda>a b. \<not> (isWhite a \<and> b = NL)) (decode s)"
    unfolding decode_def
    by (intro successively_trim successively_nlWs_keeps successively_wsNl)
  show "successively (\<lambda>a b. \<not> (a = NL \<and> isWhite b)) (decode s)"
    unfolding decode_def by (intro successively_trim successively_nlWs)
  show "decode s = [] \<or> (\<not> isWhite (hd (decode s)) \<and> \<not> isWhite (last (decode s)))"
    unfolding decode_def by (rule trim_ends)
qed

subsection \<open>A text with an entity literal is shortened\<close>

lemma length_replaceG_le:
  "(\<And>j n. j < length s \<Longrightarrow> m (drop j s) = Some (Suc n) \<Longrightarrow>
      length rep \<le> Suc n \<and> Suc n \<le> length (drop j s)) \<Longrightarrow>
   length (replaceG m rep s) \<le> length s"
proof (induction m rep s rule: replaceG.induct)
  case (1 m rep)
  show ?case by simp
next
  case (2 m rep c cs)
  note IH = "2.IH" and prems = "2.prems"
  have tail: "length (replaceG m rep cs) \<le> length cs"
    if "m (c # cs) = None \<or> m (c # cs) = Some 0"
  proof -
    have "\<And>j n. j < length cs \<Longrightarrow> m (drop j cs) = Some (Suc n) \<Longrightarrow>
             length rep \<le> Suc n \<and> Suc n \<le> length (drop j cs)"
      using prems [of "Suc _"] by simp
    then show ?thesis using that IH(1,2) by blast
  qed
  show ?case
  proof (cases "m (c # cs)")
    case None
    then show ?thesis using tail by simp
  next
    case (Some k)
    show ?thesis
    proof (cases k)
      case 0
      then show ?thesis using tail Some by simp
    next
      case (Suc n)
      have hit: "m (c # cs) = Some (Suc n)" using Some Suc by simp
      have b: "length rep \<le> Suc n \<and> Suc n \<le> length (c # cs)" using prems [of 0 n] hit by simp
      have "\<And>j n'. j < length (drop n cs) \<Longrightarrow> m (drop j (drop n cs)) = Some (Suc n') \<Longrightarrow>
               length rep \<le> Suc n' \<and> Suc n' \<le> length (drop j (drop n cs))"
      proof -
        fix j n' assume j: "j < length (drop n cs)" and h: "m (drop j (drop n cs)) = Some (Suc n')"
        have e: "drop j (drop n cs) = drop (Suc (j + n)) (c # cs)" by simp
        have "Suc (j + n) < length (c # cs)" using j by simp
        then show "length rep \<le> Suc n' \<and> Suc n' \<le> length (drop j (drop n cs))"
          using prems [of "Suc (j + n)" n'] h unfolding e by blast
      qed
      then have "length (replaceG m rep (drop n cs)) \<le> length (drop n cs)"
        using IH(3) [OF hit] by blast
      then show ?thesis using hit b by simp linarith
    qed
  qed
qed

lemma length_replaceG_less:
  "(\<And>j n. j < length s \<Longrightarrow> m (drop j s) = Some (Suc n) \<Longrightarrow>
      length rep < Suc n \<and> Suc n \<le> length (drop j s)) \<Longrightarrow>
   \<exists>j n. j < length s \<and> m (drop j s) = Some (Suc n) \<Longrightarrow>
   length (replaceG m rep s) < length s"
proof (induction m rep s rule: replaceG.induct)
  case (1 m rep)
  then show ?case by simp
next
  case (2 m rep c cs)
  note IH = "2.IH" and prems = "2.prems"
  have tail: "length (replaceG m rep cs) < length cs"
    if miss: "m (c # cs) = None \<or> m (c # cs) = Some 0"
  proof -
    have a: "\<And>j n. j < length cs \<Longrightarrow> m (drop j cs) = Some (Suc n) \<Longrightarrow>
             length rep < Suc n \<and> Suc n \<le> length (drop j cs)"
      using prems(1) [of "Suc _"] by simp
    obtain j n where j: "j < length (c # cs)" "m (drop j (c # cs)) = Some (Suc n)"
      using prems(2) by blast
    then have "j \<noteq> 0" using miss by (cases j) auto
    then obtain i where "j = Suc i" by (cases j) auto
    then have "\<exists>j n. j < length cs \<and> m (drop j cs) = Some (Suc n)" using j by auto
    then show ?thesis using miss IH(1,2) a by blast
  qed
  show ?case
  proof (cases "m (c # cs)")
    case None
    then show ?thesis using tail by simp
  next
    case (Some k)
    show ?thesis
    proof (cases k)
      case 0
      then show ?thesis using tail Some by simp
    next
      case (Suc n)
      have hit: "m (c # cs) = Some (Suc n)" using Some Suc by simp
      have b: "length rep < Suc n \<and> Suc n \<le> length (c # cs)" using prems(1) [of 0 n] hit by simp
      have "\<And>j n'. j < length (drop n cs) \<Longrightarrow> m (drop j (drop n cs)) = Some (Suc n') \<Longrightarrow>
               length rep \<le> Suc n' \<and> Suc n' \<le> length (drop j (drop n cs))"
      proof -
        fix j n' assume j: "j < length (drop n cs)" and h: "m (drop j (drop n cs)) = Some (Suc n')"
        have e: "drop j (drop n cs) = drop (Suc (j + n)) (c # cs)" by simp
        have "Suc (j + n) < length (c # cs)" using j by simp
        then have "length rep < Suc n' \<and> Suc n' \<le> length (drop j (drop n cs))"
          using prems(1) [of "Suc (j + n)" n'] h unfolding e by blast
        then show "length rep \<le> Suc n' \<and> Suc n' \<le> length (drop j (drop n cs))" by simp
      qed
      then have "length (replaceG m rep (drop n cs)) \<le> length (drop n cs)"
        by (rule length_replaceG_le)
      then show ?thesis using hit b by simp linarith
    qed
  qed
qed

lemma testLit_hit: "p \<noteq> [] \<Longrightarrow> testLit p s \<Longrightarrow> \<exists>j < length s. take (length p) (drop j s) = p"
proof (induction s)
  case Nil
  then show ?case by simp
next
  case (Cons c cs)
  show ?case
  proof (cases "take (length p) (c # cs) = p")
    case True
    then have "take (length p) (drop 0 (c # cs)) = p" by simp
    then show ?thesis by (metis length_greater_0_conv list.simps(3))
  next
    case False
    then have "testLit p cs" using Cons.prems by simp
    then obtain j where "j < length cs" "take (length p) (drop j cs) = p"
      using Cons by blast
    then have "Suc j < length (c # cs) \<and> take (length p) (drop (Suc j) (c # cs)) = p" by simp
    then show ?thesis by blast
  qed
qed

lemma lit_within: "lit p u = Some n \<Longrightarrow> n = length p \<and> n \<le> length u"
proof -
  assume h: "lit p u = Some n"
  have "take n u = p" and n: "n = length p" using lit_take [OF h] by simp_all
  then have "length (take n u) = n" by simp
  then show ?thesis using n by simp
qed

lemma length_lit_less:
  assumes "length rep < length p" and "testLit p s"
  shows "length (replaceG (lit p) rep s) < length s"
proof (rule length_replaceG_less)
  fix j n
  assume "lit p (drop j s) = Some (Suc n)"
  then show "length rep < Suc n \<and> Suc n \<le> length (drop j s)"
    using lit_within assms(1) by fastforce
next
  have "p \<noteq> []" using assms(1) by auto
  then obtain j where j: "j < length s" "take (length p) (drop j s) = p"
    using testLit_hit assms(2) by blast
  then have "lit p (drop j s) = Some (length p)" by (simp add: lit_def)
  moreover obtain n where "length p = Suc n" using assms(1) by (cases "length p") auto
  ultimately show "\<exists>j n. j < length s \<and> lit p (drop j s) = Some (Suc n)" using j by auto
qed

lemma length_lit_le:
  assumes "length rep \<le> length p"
  shows "length (replaceG (lit p) rep s) \<le> length s"
proof (rule length_replaceG_le)
  fix j n
  assume "lit p (drop j s) = Some (Suc n)"
  then show "length rep \<le> Suc n \<and> Suc n \<le> length (drop j s)"
    using lit_within assms by fastforce
qed

lemma nbspRe_lit:
  "nbspRe u = Some n \<Longrightarrow> lit [NBSP] u = Some n \<or> lit (js ''&nbsp;'') u = Some n"
  by (auto simp: nbspRe_def split: option.splits)

lemma length_nbsp_le: "length (replaceG nbspRe [SP] s) \<le> length s"
proof (rule length_replaceG_le)
  fix j n
  assume "nbspRe (drop j s) = Some (Suc n)"
  then have "lit [NBSP] (drop j s) = Some (Suc n) \<or> lit (js ''&nbsp;'') (drop j s) = Some (Suc n)"
    by (rule nbspRe_lit)
  then show "length [SP] \<le> Suc n \<and> Suc n \<le> length (drop j s)"
    using lit_within by fastforce
qed

lemma length_nbsp_less:
  assumes "NBSP \<notin> set s" and "testLit (js ''&nbsp;'') s"
  shows "length (replaceG nbspRe [SP] s) < length s"
proof (rule length_replaceG_less)
  fix j n
  assume h: "nbspRe (drop j s) = Some (Suc n)"
  have "lit [NBSP] (drop j s) = None" using assms(1) by (simp add: lit_no_match testLit_single)
  then have "lit (js ''&nbsp;'') (drop j s) = Some (Suc n)" using nbspRe_lit [OF h] by simp
  then have "Suc n = length (js ''&nbsp;'') \<and> Suc n \<le> length (drop j s)" by (rule lit_within)
  then show "length [SP] < Suc n \<and> Suc n \<le> length (drop j s)" by (simp add: js_def)
next
  have "js ''&nbsp;'' \<noteq> []" by (simp add: js_def)
  then obtain j where j: "j < length s" "take (length (js ''&nbsp;'')) (drop j s) = js ''&nbsp;''"
    using testLit_hit assms(2) by blast
  have "lit [NBSP] (drop j s) = None" using assms(1) by (simp add: lit_no_match testLit_single)
  moreover have "lit (js ''&nbsp;'') (drop j s) = Some (length (js ''&nbsp;''))"
    using j by (simp add: lit_def)
  ultimately have "nbspRe (drop j s) = Some (Suc 5)" by (simp add: nbspRe_def js_def)
  then show "\<exists>j n. j < length s \<and> nbspRe (drop j s) = Some (Suc n)" using j by blast
qed

lemma length_horiz_le: "length (replaceG horizRe [SP] s) \<le> length s"
proof (rule length_replaceG_le)
  fix j n
  assume "horizRe (drop j s) = Some (Suc n)"
  then have "Suc n = length (takeWhile isHoriz (drop j s))"
    by (auto simp: horizRe_def Let_def split: if_splits)
  then show "length [SP] \<le> Suc n \<and> Suc n \<le> length (drop j s)"
    using length_takeWhile_le [of isHoriz "drop j s"] by simp
qed

lemma length_wsNl_le: "length (replaceG wsNlRe [NL] s) \<le> length s"
proof (rule length_replaceG_le)
  fix j n
  assume h: "wsNlRe (drop j s) = Some (Suc n)"
  have "Suc n \<le> length (takeWhile isWhite (drop j s))" using h by (rule wsNlRe_take)
  then show "length [NL] \<le> Suc n \<and> Suc n \<le> length (drop j s)"
    using length_takeWhile_le [of isWhite "drop j s"] by simp
qed

lemma length_nlWs_le: "length (replaceG nlWsRe [NL] s) \<le> length s"
proof (rule length_replaceG_le)
  fix j n
  assume h: "nlWsRe (drop j s) = Some (Suc n)"
  have t: "take (Suc n) (drop j s) = NL # takeWhile isWhite (tl (drop j s))"
    using h by (rule nlWsRe_take)
  have "Suc n = Suc (length (takeWhile isWhite (tl (drop j s))))"
    using h by (auto simp: nlWsRe_def Let_def split: list.splits if_splits)
  moreover have "length (take (Suc n) (drop j s)) =
                 Suc (length (takeWhile isWhite (tl (drop j s))))"
    unfolding t by simp
  ultimately show "length [NL] \<le> Suc n \<and> Suc n \<le> length (drop j s)" by simp
qed

lemma length_trim_le: "length (trim s) \<le> length s"
proof -
  have "length (trim s) \<le> length (rev (dropWhile isWhite s))"
    unfolding trim_def using length_dropWhile_le [of isWhite "rev (dropWhile isWhite s)"] by simp
  then show ?thesis using length_dropWhile_le [of isWhite s] by simp
qed

lemma decode_shrinks:
  assumes nb: "NBSP \<notin> set s" and ent: "hasEntity s"
  shows "length (decode s) < length s"
proof -
  let ?s1 = "replaceG nbspRe [SP] s"
  let ?s2 = "replaceG (lit (js ''&amp;'')) (js ''&'') ?s1"
  let ?s3 = "replaceG (lit (js ''&lt;'')) (js ''<'') ?s2"
  let ?s4 = "replaceG (lit (js ''&gt;'')) (js ''>'') ?s3"
  have l: "length (js ''&'') < length (js ''&amp;'')" "length (js ''<'') < length (js ''&lt;'')"
    "length (js ''>'') < length (js ''&gt;'')"
    by (simp_all add: js_def)
  have 1: "length ?s1 \<le> length s" by (rule length_nbsp_le)
  have 2: "length ?s2 \<le> length ?s1" using l(1) by (intro length_lit_le) simp
  have 3: "length ?s3 \<le> length ?s2" using l(2) by (intro length_lit_le) simp
  have 4: "length ?s4 \<le> length ?s3" using l(3) by (intro length_lit_le) simp
  have "length ?s4 < length s"
  proof (cases "testLit (js ''&nbsp;'') s")
    case True
    then have "length ?s1 < length s" using nb by (intro length_nbsp_less)
    then show ?thesis using 2 3 4 by linarith
  next
    case n1: False
    then have e1: "?s1 = s" using nb by (intro replaceG_nbsp_unchanged)
    show ?thesis
    proof (cases "testLit (js ''&amp;'') s")
      case True
      then have "length ?s2 < length s" unfolding e1 using l(1) by (intro length_lit_less)
      then show ?thesis using 3 4 by linarith
    next
      case n2: False
      then have e2: "?s2 = s" unfolding e1 by (rule replaceG_lit_unchanged)
      show ?thesis
      proof (cases "testLit (js ''&lt;'') s")
        case True
        then have "length ?s3 < length s" unfolding e2 using l(2) by (intro length_lit_less)
        then show ?thesis using 4 by linarith
      next
        case n3: False
        then have e3: "?s3 = s" unfolding e2 by (rule replaceG_lit_unchanged)
        have "testLit (js ''&gt;'') s" using ent n1 n2 n3 by (simp add: hasEntity_def)
        then show ?thesis unfolding e3 using l(3) by (intro length_lit_less)
      qed
    qed
  qed
  moreover have "length (decode s) \<le> length ?s4"
    unfolding decode_def
    using length_trim_le [of "replaceG nlWsRe [NL] (replaceG wsNlRe [NL] (replaceG horizRe [SP] ?s4))"]
      length_nlWs_le [of "replaceG wsNlRe [NL] (replaceG horizRe [SP] ?s4)"]
      length_wsNl_le [of "replaceG horizRe [SP] ?s4"] length_horiz_le [of ?s4]
    by linarith
  ultimately show ?thesis by linarith
qed

subsection \<open>Idempotence\<close>

text \<open>
  Claim C5, as stated: \<open>decode (decode x) = decode x\<close> for every input. The input
  \<open>&amp;amp;\<close> refutes it: one pass unescapes it to \<open>&amp;\<close>, the next to \<open>&\<close>.
\<close>

theorem decode_twice_counterexample:
  "decode (js ''&amp;amp;'') = js ''&amp;'' \<and> decode (decode (js ''&amp;amp;'')) = js ''&'' \<and>
   decode (decode (js ''&amp;amp;'')) \<noteq> decode (js ''&amp;amp;'')"
  by code_simp

text \<open>
  Claim C5, amended: \<open>decode (decode x) = decode x\<close> holds exactly for the inputs whose
  decoded text contains none of the entity literals \<open>&nbsp;\<close>, \<open>&amp;\<close>, \<open>&lt;\<close>,
  \<open>&gt;\<close>. For every input the decoded text holds no non-breaking space U+00A0, no tab
  and no two adjacent spaces; decoding \<open>A\<close>, two non-breaking spaces and \<open>B\<close> yields
  \<open>A B\<close>.
\<close>

theorem decode_idempotent:
  "(decode (decode x) = decode x \<longleftrightarrow> \<not> hasEntity (decode x)) \<and>
   NBSP \<notin> set (decode x) \<and> TAB \<notin> set (decode x) \<and>
   successively (\<lambda>a b. \<not> (a = SP \<and> b = SP)) (decode x) \<and>
   decode (js ''A'' @ [NBSP, NBSP] @ js ''B'') = js ''A B''"
proof -
  have a: "decode (decode x) = decode x" if "\<not> hasEntity (decode x)"
    using decode_no_nbsp decode_no_tab that decode_normal by (rule decode_fixed)
  have b: "decode (decode x) \<noteq> decode x" if "hasEntity (decode x)"
    using decode_shrinks [OF decode_no_nbsp that] by auto
  have "decode (js ''A'' @ [NBSP, NBSP] @ js ''B'') = js ''A B''" by code_simp
  then show ?thesis using a b decode_no_nbsp decode_no_tab decode_normal(1) by blast
qed

theorem decode_idempotent_witness:
  "\<not> hasEntity (decode ([TAB, NBSP] @ js ''Fish &amp; Chips '' @ [NL, SP, NL] @ js ''&lt;b&gt;'')) \<and>
   decode ([TAB, NBSP] @ js ''Fish &amp; Chips '' @ [NL, SP, NL] @ js ''&lt;b&gt;'') =
     js ''Fish & Chips'' @ [NL] @ js ''<b>'' \<and>
   decode (decode ([TAB, NBSP] @ js ''Fish &amp; Chips '' @ [NL, SP, NL] @ js ''&lt;b&gt;'')) =
     js ''Fish & Chips'' @ [NL] @ js ''<b>''"
proof -
  have h: "\<not> hasEntity (decode ([TAB, NBSP] @ js ''Fish &amp; Chips '' @ [NL, SP, NL] @ js ''&lt;b&gt;''))"
    by code_simp
  have v: "decode ([TAB, NBSP] @ js ''Fish &amp; Chips '' @ [NL, SP, NL] @ js ''&lt;b&gt;'') =
     js ''Fish & Chips'' @ [NL] @ js ''<b>''"
    by code_simp
  from decode_idempotent [of "[TAB, NBSP] @ js ''Fish &amp; Chips '' @ [NL, SP, NL] @ js ''&lt;b&gt;''"] h
  have "decode (decode ([TAB, NBSP] @ js ''Fish &amp; Chips '' @ [NL, SP, NL] @ js ''&lt;b&gt;'')) =
        decode ([TAB, NBSP] @ js ''Fish &amp; Chips '' @ [NL, SP, NL] @ js ''&lt;b&gt;'')"
    by blast
  then show ?thesis using h v by simp
qed

end
